theory Spec2Isabelle
  imports Main "HOL-Library.Word"
begin

unbundle bit_operations_syntax

section \<open>PpmDecompress.cpp: data\<close>

text \<open>
  The decompressor of \<^verbatim>\<open>src/cpp/PpmDecompress.cpp\<close>. Symbols are \<^verbatim>\<open>uint32_t\<close>; the loop
  counters \<^verbatim>\<open>order\<close> and \<^verbatim>\<open>i\<close> are \<^verbatim>\<open>int\<close>s that never leave \<open>0 .. history.size()\<close> and are
  naturals here (a history of \<open>2^31\<close> entries or more is not modelled).
\<close>

type_synonym uint32 = "32 word"
type_synonym byte = "8 word"

text \<open>
  What a C++ evaluation can end with instead of a value. \<open>LogicError\<close> is the
  \<^verbatim>\<open>std::logic_error\<close> of line 97, \<open>OutOfRange\<close> the \<^verbatim>\<open>std::out_of_range\<close> of
  \<^verbatim>\<open>vector::at\<close> (line 98), \<open>NullDereference\<close> the use of a null \<^verbatim>\<open>Context *\<close> (lines 96, 103:
  undefined behaviour, kept as an outcome of its own), \<open>ConstCharPtr\<close> a thrown
  \<^verbatim>\<open>const char *\<close>, the only type the handler of \<^verbatim>\<open>main\<close> (line 53) catches. The last three
  are the error kinds the specification names for the coder and the model.
\<close>

datatype exn =
    ConstCharPtr string
  | LogicError string
  | OutOfRange
  | NullDereference
  | ModelError
  | CorruptStreamError
  | RescaleInvariantError

text \<open>
  \<^verbatim>\<open>PpmModel::Context\<close> as the source reads it: a frequency table and a vector
  \<^verbatim>\<open>subcontexts\<close> of owning pointers, each null or a child; the vector may be empty
  (line 96). The table type \<open>'t\<close> is the one \<^verbatim>\<open>ArithmeticDecoder::read\<close> takes.
\<close>

datatype 't Context = Context (frequencies: 't) (subcontexts: "'t Context option list")

record 't PpmModel =
  modelOrder :: int
  rootContext :: "'t Context option"
  orderMinus1Freqs :: 't

text \<open>
  The classes of \<^verbatim>\<open>ArithmeticCoder.hpp\<close>, \<^verbatim>\<open>BitIoStream.hpp\<close> and \<^verbatim>\<open>PpmModel.hpp\<close> are not
  part of the source file. What the decompressor calls of them is a parameter of the
  embedding:
  \<^item> \<open>newDecoder n inp\<close> is \<^verbatim>\<open>ArithmeticDecoder dec(n, in)\<close>; the decoder state \<open>'d\<close> holds
    the bit stream it reads from;
  \<^item> \<open>read d t\<close> is \<^verbatim>\<open>dec.read(t)\<close>: the symbol and the decoder afterwards, or an exception.
    The table is not returned: the specification lets only the increment operation
    mutate a Frequency Table;
  \<^item> \<open>newModel order symbolLimit escapeSymbol\<close> is the constructor of \<^verbatim>\<open>PpmModel\<close>;
  \<^item> \<open>incrementContexts m h sym\<close> is \<^verbatim>\<open>model.incrementContexts(history, symbol)\<close>: the model
    afterwards, or an exception;
  \<^item> \<open>charIsSigned\<close> is \<^verbatim>\<open>std::numeric_limits<char>::is_signed\<close>.
\<close>

record ('d, 't, 'i) collaborators =
  newDecoder :: "nat \<Rightarrow> 'i \<Rightarrow> exn + 'd"
  read :: "'d \<Rightarrow> 't \<Rightarrow> exn + (uint32 \<times> 'd)"
  newModel :: "int \<Rightarrow> uint32 \<Rightarrow> uint32 \<Rightarrow> exn + 't PpmModel"
  incrementContexts :: "'t PpmModel \<Rightarrow> uint32 list \<Rightarrow> uint32 \<Rightarrow> exn + 't PpmModel"
  charIsSigned :: bool

text \<open>
  The objects \<^verbatim>\<open>decompress\<close> owns while its loop runs: the decoder, the model, the
  history and the bytes put to \<^verbatim>\<open>out\<close> so far.
\<close>

record ('d, 't) session =
  dec :: 'd
  model :: "'t PpmModel"
  history :: "uint32 list"
  out :: "byte list"

definition MODEL_ORDER :: int where
  "MODEL_ORDER = 3"

section \<open>decodeSymbol (lines 89-112)\<close>

text \<open>
  Lines 95-101, the inner loop from index \<open>i\<close> with \<^verbatim>\<open>ctx\<close> non-null: \<open>Found\<close> when the
  loop ends with a context, \<open>OuterEnd\<close> for the \<^verbatim>\<open>goto outerEnd\<close> of a null child, \<open>Thrown\<close> for
  the exceptions of lines 97 and 98.
\<close>

datatype 't lookup = Found "'t Context" | OuterEnd | Thrown exn

function descend :: "uint32 list \<Rightarrow> nat \<Rightarrow> nat \<Rightarrow> 't Context \<Rightarrow> 't lookup" where
  "descend h order i ctx =
     (if i < order then
        (if subcontexts ctx = [] then Thrown (LogicError ''Assertion error'')
         else if length h \<le> i then Thrown OutOfRange
         else if length (subcontexts ctx) \<le> unat (h ! i) then Thrown OutOfRange
         else (case subcontexts ctx ! unat (h ! i) of
                 None \<Rightarrow> OuterEnd
               | Some child \<Rightarrow> descend h order (Suc i) child))
      else Found ctx)"
  by pat_completeness auto
termination
  by (relation "measure (\<lambda>(h, order, i, ctx). order - i)") auto

declare descend.simps [simp del]

text \<open>
  One pass of the outer loop body (lines 94-108) at \<open>order\<close>: \<open>Return\<close> is line 105,
  \<open>Continue\<close> reaching \<^verbatim>\<open>outerEnd\<close> (with the decoder as the pass left it), \<open>Throw\<close> an
  exception leaving \<^verbatim>\<open>decodeSymbol\<close>. The model is passed by non-const reference and the
  history by const reference: the whole session is handed through.
\<close>

datatype ('d, 't) step =
    Return uint32 "('d, 't) session"
  | Continue "('d, 't) session"
  | Throw exn

definition orderBody ::
  "('d, 't, 'i) collaborators \<Rightarrow> ('d, 't) session \<Rightarrow> nat \<Rightarrow> ('d, 't) step" where
  "orderBody E s order =
     (case rootContext (model s) of
        None \<Rightarrow> Throw NullDereference
      | Some root \<Rightarrow>
          (case descend (history s) order 0 root of
             Thrown e \<Rightarrow> Throw e
           | OuterEnd \<Rightarrow> Continue s
           | Found ctx \<Rightarrow>
               (case read E (dec s) (frequencies ctx) of
                  Inl e \<Rightarrow> Throw e
                | Inr (symbol, d) \<Rightarrow>
                    if symbol < 256 then Return symbol (s\<lparr>dec := d\<rparr>)
                    else Continue (s\<lparr>dec := d\<rparr>))))"

text \<open>
  The outer loop (line 93) from \<open>order\<close> down to 0; \<open>Continue\<close> is leaving the loop at
  \<^verbatim>\<open>order = -1\<close>.
\<close>

primrec orderLoop ::
  "('d, 't, 'i) collaborators \<Rightarrow> nat \<Rightarrow> ('d, 't) session \<Rightarrow> ('d, 't) step" where
  "orderLoop E 0 s = orderBody E s 0"
| "orderLoop E (Suc k) s =
     (case orderBody E s (Suc k) of
        Continue s' \<Rightarrow> orderLoop E k s'
      | r \<Rightarrow> r)"

definition decodeSymbol ::
  "('d, 't, 'i) collaborators \<Rightarrow> ('d, 't) session \<Rightarrow> exn + (uint32 \<times> ('d, 't) session)" where
  "decodeSymbol E s =
     (case orderLoop E (length (history s)) s of
        Return symbol s' \<Rightarrow> Inr (symbol, s')
      | Throw e \<Rightarrow> Inl e
      | Continue s' \<Rightarrow>
          (case read E (dec s') (orderMinus1Freqs (model s')) of
             Inl e \<Rightarrow> Inl e
           | Inr (symbol, d) \<Rightarrow> Inr (symbol, s'\<lparr>dec := d\<rparr>)))"

section \<open>decompress (lines 60-86) and main (lines 37-57)\<close>

text \<open>
  Lines 73-76: \<^verbatim>\<open>int b\<close> is a 32-bit two's complement integer; \<^verbatim>\<open>>>\<close> on it is the
  arithmetic shift; \<^verbatim>\<open>static_cast<char>\<close> keeps the low eight bits.
\<close>

definition adjust :: "bool \<Rightarrow> 32 word \<Rightarrow> 32 word" where
  "adjust is_signed b = (if is_signed then b - push_bit 8 (signed_drop_bit 7 b) else b)"

definition toChar :: "bool \<Rightarrow> uint32 \<Rightarrow> byte" where
  "toChar is_signed symbol = ucast (adjust is_signed symbol)"

text \<open>
  One pass of the loop body (lines 69-84): \<open>Next\<close> goes round again, \<open>Break\<close> is line 72,
  \<open>Abort\<close> an exception leaving \<^verbatim>\<open>decompress\<close>, with the bytes already put to \<^verbatim>\<open>out\<close>.
\<close>

datatype ('d, 't) iteration =
    Next "('d, 't) session"
  | Break "('d, 't) session"
  | Abort exn "byte list"

definition prepend :: "int \<Rightarrow> uint32 \<Rightarrow> uint32 list \<Rightarrow> uint32 list" where
  "prepend order symbol h =
     (if 1 \<le> order then symbol # (if nat order \<le> length h then butlast h else h) else h)"

definition loopBody :: "('d, 't, 'i) collaborators \<Rightarrow> ('d, 't) session \<Rightarrow> ('d, 't) iteration" where
  "loopBody E s =
     (case decodeSymbol E s of
        Inl e \<Rightarrow> Abort e (out s)
      | Inr (symbol, s1) \<Rightarrow>
          if symbol = 256 then Break s1
          else
            (let s2 = s1\<lparr>out := out s1 @ [toChar (charIsSigned E) symbol]\<rparr> in
             case incrementContexts E (model s2) (history s2) symbol of
               Inl e \<Rightarrow> Abort e (out s2)
             | Inr m \<Rightarrow>
                 Next (s2\<lparr>model := m, history := prepend (modelOrder m) symbol (history s2)\<rparr>)))"

text \<open>
  \<^verbatim>\<open>while (true)\<close> may run for ever: the loop takes fuel, one unit per pass, and \<open>None\<close> is
  running out of it.
\<close>

datatype ('d, 't) outcome =
    Completed "('d, 't) session"
  | Aborted exn "byte list"

fun decompressLoop ::
  "('d, 't, 'i) collaborators \<Rightarrow> nat \<Rightarrow> ('d, 't) session \<Rightarrow> ('d, 't) outcome option" where
  "decompressLoop E 0 s = None"
| "decompressLoop E (Suc n) s =
     (case loopBody E s of
        Next s' \<Rightarrow> decompressLoop E n s'
      | Break s' \<Rightarrow> Some (Completed s')
      | Abort e bs \<Rightarrow> Some (Aborted e bs))"

text \<open>
  Lines 64-66: the session the loop starts from, or the exception of a constructor.
  \<^verbatim>\<open>MODEL_ORDER\<close> is a constant of the program that line 29 allows to be set to any value
  from -1 on: \<open>sessionAt\<close> and \<open>decompressAt\<close> take the order the program is built with, and
  \<open>initialSession\<close> and \<open>decompress\<close> are the program as it stands.
\<close>

definition sessionAt ::
  "('d, 't, 'i) collaborators \<Rightarrow> int \<Rightarrow> 'i \<Rightarrow> exn + ('d, 't) session" where
  "sessionAt E order inp =
     (case newDecoder E 32 inp of
        Inl e \<Rightarrow> Inl e
      | Inr d \<Rightarrow>
          (case newModel E order 257 256 of
             Inl e \<Rightarrow> Inl e
           | Inr m \<Rightarrow> Inr \<lparr>dec = d, model = m, history = [], out = []\<rparr>))"

definition decompressAt ::
  "('d, 't, 'i) collaborators \<Rightarrow> int \<Rightarrow> nat \<Rightarrow> 'i \<Rightarrow> ('d, 't) outcome option" where
  "decompressAt E order fuel inp =
     (case sessionAt E order inp of
        Inl e \<Rightarrow> Some (Aborted e [])
      | Inr s \<Rightarrow> decompressLoop E fuel s)"

definition initialSession ::
  "('d, 't, 'i) collaborators \<Rightarrow> 'i \<Rightarrow> exn + ('d, 't) session" where
  "initialSession E inp = sessionAt E MODEL_ORDER inp"

definition decompress ::
  "('d, 't, 'i) collaborators \<Rightarrow> nat \<Rightarrow> 'i \<Rightarrow> ('d, 't) outcome option" where
  "decompress E fuel inp = decompressAt E MODEL_ORDER fuel inp"



definition written :: "('d, 't) outcome \<Rightarrow> byte list" where
  "written r = (case r of Completed s \<Rightarrow> out s | Aborted e bs \<Rightarrow> bs)"


section \<open>The collaborators, as the specification describes them\<close>

text \<open>
  Instances of the parameters above, used to run the decompressor on concrete bit
  streams. None of this is code of \<^verbatim>\<open>PpmDecompress.cpp\<close>.
\<close>

type_synonym FrequencyTable = "nat list"

definition symbolLimit :: nat where
  "symbolLimit = 257"

definition escapeSymbol :: nat where
  "escapeSymbol = 256"

definition TOP_BIT :: int where
  "TOP_BIT = 2 ^ 31"

definition SECOND_BIT :: int where
  "SECOND_BIT = 2 ^ 30"

definition MIN_RANGE :: int where
  "MIN_RANGE = SECOND_BIT + 2"

text \<open>
  Modelled from the spec: the bound \<open>MAX_TOTAL\<close> of section 4.1 (\<^verbatim>\<open>ArithmeticCoder.hpp\<close> is
  missing). The specification gives \<open>MAX_TOTAL \<le> MIN_RANGE\<close> only; the largest such value is
  taken.
\<close>

definition MAX_TOTAL :: int where
  "MAX_TOTAL = MIN_RANGE"

text \<open>
  Modelled from the spec: the Coder State of the decoder (section 3) over the Bit
  Transport of section 6 (\<^verbatim>\<open>ArithmeticCoder.hpp\<close> and \<^verbatim>\<open>BitIoStream.hpp\<close> are missing).
  \<open>low\<close>, \<open>high\<close> and \<open>code\<close> are 32-bit values as integers, with the wrap-around written
  out. \<open>bits\<close> are the bits the transport still holds; \<open>margin\<close> is the number of missing bits
  the decoder may still read as 0 before end-of-stream is a \<open>CorruptStreamError\<close> (the
  flush margin, whose size the specification leaves open: it comes with the input).
\<close>

record ArithmeticDecoder =
  low :: int
  high :: int
  code :: int
  bits :: "bool list"
  margin :: nat

definition sub32 :: "int \<Rightarrow> int \<Rightarrow> int" where
  "sub32 a b = (a - b) mod 2 ^ 32"

definition readBit :: "ArithmeticDecoder \<Rightarrow> exn + (int \<times> ArithmeticDecoder)" where
  "readBit d =
     (case bits d of
        b # bs \<Rightarrow> Inr (if b then 1 else 0, d\<lparr>bits := bs\<rparr>)
      | [] \<Rightarrow> if margin d = 0 then Inl CorruptStreamError
              else Inr (0, d\<lparr>margin := margin d - 1\<rparr>))"

text \<open>
  Modelled from the spec: one round of \<open>renormalize\<close> (section 4.1) after \<open>k\<close> was found to
  be the amount to subtract (0, \<open>TOP_BIT\<close> or \<open>SECOND_BIT\<close>): subtract, shift left by one
  within 32 bits, \<open>high\<close> gets a 1 appended, \<open>low\<close> a 0, \<open>code\<close> the next input bit.
\<close>

definition shiftIn :: "int \<Rightarrow> int \<Rightarrow> ArithmeticDecoder \<Rightarrow> ArithmeticDecoder" where
  "shiftIn k b d =
     d\<lparr>low := (2 * sub32 (low d) k) mod 2 ^ 32,
       high := (2 * sub32 (high d) k + 1) mod 2 ^ 32,
       code := (2 * sub32 (code d) k + b) mod 2 ^ 32\<rparr>"

definition shiftAmount :: "ArithmeticDecoder \<Rightarrow> int option" where
  "shiftAmount d =
     (if high d < TOP_BIT then Some 0
      else if TOP_BIT \<le> low d then Some TOP_BIT
      else if SECOND_BIT \<le> low d \<and> high d < TOP_BIT + SECOND_BIT then Some SECOND_BIT
      else None)"

function renormalize :: "ArithmeticDecoder \<Rightarrow> exn + ArithmeticDecoder" where
  "renormalize d =
     (case shiftAmount d of
        None \<Rightarrow> Inr d
      | Some k \<Rightarrow>
          (case readBit d of
             Inl e \<Rightarrow> Inl e
           | Inr (b, d') \<Rightarrow> renormalize (shiftIn k b d')))"
  by pat_completeness auto
termination
  by (relation "measure (\<lambda>d. length (bits d) + margin d)")
     (auto simp: readBit_def shiftIn_def split: list.splits if_splits)

declare renormalize.simps [simp del]

text \<open>
  Modelled from the spec: \<open>narrow\<close> of section 4.1, in exact integer arithmetic.
\<close>

definition narrow :: "FrequencyTable \<Rightarrow> nat \<Rightarrow> ArithmeticDecoder \<Rightarrow> exn + ArithmeticDecoder" where
  "narrow t symbol d =
     (let total = int (sum_list t);
          cumLow = int (sum_list (take symbol t));
          cumHigh = cumLow + int (t ! symbol);
          range = high d - low d + 1
      in if length t \<le> symbol \<or> t ! symbol = 0 then Inl ModelError
         else Inr (d\<lparr>high := low d + range * cumHigh div total - 1,
                     low := low d + range * cumLow div total\<rparr>))"

text \<open>
  The search over cumulative counts: the first symbol, counted from \<open>i\<close>, whose
  \<open>[cumLow, cumHigh)\<close> contains the value.
\<close>

fun search :: "FrequencyTable \<Rightarrow> int \<Rightarrow> nat \<Rightarrow> nat option" where
  "search [] v i = None"
| "search (c # cs) v i = (if v < int c then Some i else search cs (v - int c) (Suc i))"

text \<open>
  Modelled from the spec: \<open>Decoder.decodeSymbol(table)\<close> of section 4.1, the \<^verbatim>\<open>dec.read\<close>
  of the source.
\<close>

definition ArithmeticDecoder_read ::
  "ArithmeticDecoder \<Rightarrow> FrequencyTable \<Rightarrow> exn + (uint32 \<times> ArithmeticDecoder)" where
  "ArithmeticDecoder_read d t =
     (let total = int (sum_list t);
          range = high d - low d + 1;
          v = min (total - 1) (((code d - low d + 1) * total - 1) div range)
      in case search t v 0 of
           None \<Rightarrow> Inl CorruptStreamError
         | Some symbol \<Rightarrow>
             (case narrow t symbol d of
                Inl e \<Rightarrow> Inl e
              | Inr d1 \<Rightarrow>
                  (case renormalize d1 of
                     Inl e \<Rightarrow> Inl e
                   | Inr d2 \<Rightarrow> Inr (of_nat symbol, d2))))"

text \<open>
  Modelled from the spec: the construction of the decoder (\<open>low = 0\<close>, \<open>high = MASK\<close>,
  \<open>code\<close> filled with the first \<open>n\<close> bits). The input is the transport's bits and its
  flush margin.
\<close>

fun fillCode :: "nat \<Rightarrow> ArithmeticDecoder \<Rightarrow> exn + ArithmeticDecoder" where
  "fillCode 0 d = Inr d"
| "fillCode (Suc n) d =
     (case readBit d of
        Inl e \<Rightarrow> Inl e
      | Inr (b, d') \<Rightarrow> fillCode n (d'\<lparr>code := (2 * code d' + b) mod 2 ^ 32\<rparr>))"

definition ArithmeticDecoder_new :: "nat \<Rightarrow> bool list \<times> nat \<Rightarrow> exn + ArithmeticDecoder" where
  "ArithmeticDecoder_new n inp =
     fillCode n \<lparr>low = 0, high = 2 ^ 32 - 1, code = 0, bits = fst inp, margin = snd inp\<rparr>"

text \<open>
  Modelled from the spec: the rescale and the increment of a Frequency Table (sections 3
  and 4.2; \<^verbatim>\<open>FrequencyTable.hpp\<close> is missing). A rescale that would not lower the total is
  not repeated.
\<close>

definition halve :: "FrequencyTable \<Rightarrow> FrequencyTable" where
  "halve t = map (\<lambda>c. if c = 0 then 0 else max 1 (c div 2)) t"

function rescale :: "FrequencyTable \<Rightarrow> FrequencyTable" where
  "rescale t =
     (if MAX_TOTAL < int (sum_list t) \<and> sum_list (halve t) < sum_list t then rescale (halve t)
      else t)"
  by pat_completeness auto
termination
  by (relation "measure sum_list") auto

declare rescale.simps [simp del]

definition increment :: "FrequencyTable \<Rightarrow> nat \<Rightarrow> FrequencyTable" where
  "increment t symbol =
     rescale
       (if t ! symbol = 0 then
          (let t1 = t[symbol := 1] in t1[escapeSymbol := t1 ! escapeSymbol + 1])
        else t[symbol := t ! symbol + 1])"

text \<open>
  Modelled from the spec: Context Nodes (\<^verbatim>\<open>PpmModel.hpp\<close> is missing). A node of an order
  below \<open>modelOrder\<close> has one child slot per symbol, all empty at first; a node of order
  \<open>modelOrder\<close> has none (the empty vector the source tests at line 96). The specification
  requires every table's total to be positive and does not give a new table's counts: a
  new table holds the escape slot at 1.
\<close>

definition newContext :: "bool \<Rightarrow> FrequencyTable Context" where
  "newContext hasSubctx =
     Context ((replicate symbolLimit 0)[escapeSymbol := 1])
             (if hasSubctx then replicate symbolLimit None else [])"

text \<open>
  Modelled from the spec: \<open>incrementContexts\<close> of section 4.2 from the node \<open>ctx\<close> of order
  \<open>k\<close> on, along the history symbols \<open>hs\<close> still to follow, creating absent nodes. A
  history symbol with no child slot ends the walk.
\<close>

fun incrementFrom ::
  "nat \<Rightarrow> nat \<Rightarrow> FrequencyTable Context \<Rightarrow> uint32 list \<Rightarrow> nat \<Rightarrow> FrequencyTable Context" where
  "incrementFrom n k ctx [] symbol = Context (increment (frequencies ctx) symbol) (subcontexts ctx)"
| "incrementFrom n k ctx (x # hs) symbol =
     (if n \<le> k \<or> length (subcontexts ctx) \<le> unat x then
        Context (increment (frequencies ctx) symbol) (subcontexts ctx)
      else
        (let child = (case subcontexts ctx ! unat x of
                        None \<Rightarrow> newContext (Suc k < n)
                      | Some c \<Rightarrow> c)
         in Context (increment (frequencies ctx) symbol)
                    ((subcontexts ctx)[unat x := Some (incrementFrom n (Suc k) child hs symbol)])))"

definition PpmModel_incrementContexts ::
  "FrequencyTable PpmModel \<Rightarrow> uint32 list \<Rightarrow> uint32 \<Rightarrow> exn + FrequencyTable PpmModel" where
  "PpmModel_incrementContexts m h symbol =
     (case rootContext m of
        None \<Rightarrow> Inr m
      | Some root \<Rightarrow>
          if modelOrder m < 0 then Inr m
          else if symbolLimit \<le> unat symbol then Inl ModelError
          else Inr (m\<lparr>rootContext :=
                       Some (incrementFrom (nat (modelOrder m)) 0 root h (unat symbol))\<rparr>))"

text \<open>
  Modelled from the spec: the construction of the model (section 4.2): the root node for
  an order of 0 or more, no tree for order \<open>-1\<close>, and the order \<open>-1\<close> table of uniform counts.
\<close>

definition PpmModel_new :: "int \<Rightarrow> uint32 \<Rightarrow> uint32 \<Rightarrow> exn + FrequencyTable PpmModel" where
  "PpmModel_new order symLimit escSymbol =
     (if order < - 1 \<or> symLimit \<le> escSymbol then Inl ModelError
      else Inr \<lparr>modelOrder = order,
                rootContext = (if 0 \<le> order then Some (newContext (1 \<le> order)) else None),
                orderMinus1Freqs = replicate (unat symLimit) 1\<rparr>)"

definition reference :: "bool \<Rightarrow> (ArithmeticDecoder, FrequencyTable, bool list \<times> nat) collaborators" where
  "reference is_signed =
     \<lparr>newDecoder = ArithmeticDecoder_new,
      read = ArithmeticDecoder_read,
      newModel = PpmModel_new,
      incrementContexts = PpmModel_incrementContexts,
      charIsSigned = is_signed\<rparr>"

section \<open>Observing the decompressor\<close>

text \<open>
  The symbols resolved by the first \<open>n\<close> passes of the loop of \<^verbatim>\<open>decompress\<close>, oldest first,
  and the session after them; \<open>None\<close> when one of these passes breaks or throws.
\<close>

fun decodedAfter ::
  "('d, 't, 'i) collaborators \<Rightarrow> nat \<Rightarrow> ('d, 't) session \<Rightarrow> (uint32 list \<times> ('d, 't) session) option" where
  "decodedAfter E 0 s = Some ([], s)"
| "decodedAfter E (Suc n) s =
     (case decodeSymbol E s of
        Inl e \<Rightarrow> None
      | Inr (symbol, s1) \<Rightarrow>
          (case loopBody E s of
             Next s2 \<Rightarrow> map_option (\<lambda>(syms, s'). (symbol # syms, s')) (decodedAfter E n s2)
           | _ \<Rightarrow> None))"

text \<open>
  \<open>modelOrder\<close> is a construction parameter of the model: \<open>incrementContexts\<close> leaves it as
  it is.
\<close>

definition keepsOrder :: "('d, 't, 'i) collaborators \<Rightarrow> bool" where
  "keepsOrder E =
     (\<forall>m h symbol m'. incrementContexts E m h symbol = Inr m' \<longrightarrow> modelOrder m' = modelOrder m)"

text \<open>
  A decoder that also keeps the list of its reads, each with the table it was given and
  the symbol it returned: the collaborators \<open>logging E\<close> behave as \<open>E\<close> and record every
  completed \<^verbatim>\<open>dec.read\<close>.
\<close>

definition logging ::
  "('d, 't, 'i) collaborators \<Rightarrow> ('d \<times> ('t \<times> uint32) list, 't, 'i) collaborators" where
  "logging E =
     \<lparr>newDecoder = (\<lambda>n inp. case newDecoder E n inp of Inl e \<Rightarrow> Inl e | Inr d \<Rightarrow> Inr (d, [])),
      read = (\<lambda>dl t. case read E (fst dl) t of
                        Inl e \<Rightarrow> Inl e
                      | Inr (symbol, d) \<Rightarrow> Inr (symbol, (d, snd dl @ [(t, symbol)]))),
      newModel = newModel E,
      incrementContexts = incrementContexts E,
      charIsSigned = charIsSigned E\<rparr>"

definition withLog ::
  "('t \<times> uint32) list \<Rightarrow> ('d, 't) session \<Rightarrow> ('d \<times> ('t \<times> uint32) list, 't) session" where
  "withLog l s = \<lparr>dec = (dec s, l), model = model s, history = history s, out = out s\<rparr>"

text \<open>
  The table of the context that lines 94-101 find at one order (none when the walk meets
  a null child or throws, or when there is no root), and the tables for the orders
  \<open>k, k - 1, ..., 0\<close> in this order: what a pass that escapes at every order reads against
  before it comes to line 111.
\<close>

definition tableAt :: "('d, 't) session \<Rightarrow> nat \<Rightarrow> 't list" where
  "tableAt s order =
     (case rootContext (model s) of
        None \<Rightarrow> []
      | Some root \<Rightarrow>
          (case descend (history s) order 0 root of
             Found ctx \<Rightarrow> [frequencies ctx]
           | _ \<Rightarrow> []))"

primrec tablesDown :: "('d, 't) session \<Rightarrow> nat \<Rightarrow> 't list" where
  "tablesDown s 0 = tableAt s 0"
| "tablesDown s (Suc k) = tableAt s (Suc k) @ tablesDown s k"

section \<open>The symbol walk in the words of the specification\<close>

text \<open>
  The Context Node for a history prefix, \<open>None\<close> if it does not exist: the node reached
  from \<open>ctx\<close> by following the child of each symbol in turn.
\<close>

fun contextNode :: "'t Context \<Rightarrow> uint32 list \<Rightarrow> 't Context option" where
  "contextNode ctx [] = Some ctx"
| "contextNode ctx (x # xs) =
     (if unat x < length (subcontexts ctx) then
        (case subcontexts ctx ! unat x of
           None \<Rightarrow> None
         | Some child \<Rightarrow> contextNode child xs)
      else None)"

text \<open>
  \<open>decodeOneSymbol\<close> of section 4.3 of the specification at one order: obtain the node for
  the \<open>order\<close>-length history prefix; if it does not exist, continue without any coder
  operation; otherwise decode against its table, continue on the escape symbol and stop
  on a literal.
\<close>

definition specOrder ::
  "('d, 't, 'i) collaborators \<Rightarrow> ('d, 't) session \<Rightarrow> nat \<Rightarrow> ('d, 't) step" where
  "specOrder E s order =
     (case rootContext (model s) of
        None \<Rightarrow> Continue s
      | Some root \<Rightarrow>
          (case contextNode root (take order (history s)) of
             None \<Rightarrow> Continue s
           | Some node \<Rightarrow>
               (case read E (dec s) (frequencies node) of
                  Inl e \<Rightarrow> Throw e
                | Inr (symbol, d) \<Rightarrow>
                    if symbol < 256 then Return symbol (s\<lparr>dec := d\<rparr>)
                    else Continue (s\<lparr>dec := d\<rparr>))))"

primrec specLoop ::
  "('d, 't, 'i) collaborators \<Rightarrow> nat \<Rightarrow> ('d, 't) session \<Rightarrow> ('d, 't) step" where
  "specLoop E 0 s = specOrder E s 0"
| "specLoop E (Suc k) s =
     (case specOrder E s (Suc k) of
        Continue s' \<Rightarrow> specLoop E k s'
      | r \<Rightarrow> r)"

definition decodeOneSymbol ::
  "('d, 't, 'i) collaborators \<Rightarrow> ('d, 't) session \<Rightarrow> exn + (uint32 \<times> ('d, 't) session)" where
  "decodeOneSymbol E s =
     (case specLoop E (length (history s)) s of
        Return symbol s' \<Rightarrow> Inr (symbol, s')
      | Throw e \<Rightarrow> Inl e
      | Continue s' \<Rightarrow>
          (case read E (dec s') (orderMinus1Freqs (model s')) of
             Inl e \<Rightarrow> Inl e
           | Inr (symbol, d) \<Rightarrow> Inr (symbol, s'\<lparr>dec := d\<rparr>)))"

text \<open>
  Every context met along the history has a child slot for the next history symbol: the
  walk of lines 95-101 then never throws. In \<^verbatim>\<open>decompress\<close> the history is no longer than
  \<open>modelOrder\<close>, and the nodes below that order carry their child slots.
\<close>

fun walkable :: "'t Context \<Rightarrow> uint32 list \<Rightarrow> bool" where
  "walkable ctx [] = True"
| "walkable ctx (x # xs) =
     (unat x < length (subcontexts ctx) \<and>
      (case subcontexts ctx ! unat x of
         None \<Rightarrow> True
       | Some child \<Rightarrow> walkable child xs))"

section \<open>Concrete streams\<close>

text \<open>
  Bit streams for the collaborators of the specification, each with a flush margin of 32
  missing bits: the compressed forms of the empty input, of the five bytes \<open>ABABA\<close> and of
  the single byte 200, and the compressed form of \<open>ABABA\<close> with its last byte dropped (the
  34 bits fill five bytes; the first four are left).
\<close>

definition bitsOf :: "string \<Rightarrow> bool list" where
  "bitsOf cs = map (\<lambda>c. c = CHR ''1'') cs"

definition emptyStream :: "bool list \<times> nat" where
  "emptyStream = (bitsOf ''111111111'', 32)"

definition ababaStream :: "bool list \<times> nat" where
  "ababaStream = (bitsOf ''0100000100111111111011010101101010'', 32)"

definition highStream :: "bool list \<times> nat" where
  "highStream = (bitsOf ''11001000001101111'', 32)"


text \<open>
  The session a stream starts in, for the collaborators of the specification (their
  constructors accept each of the streams above).
\<close>

definition startOf ::
  "bool list \<times> nat \<Rightarrow> (ArithmeticDecoder, FrequencyTable) session" where
  "startOf inp = projr (initialSession (reference True) inp)"

text \<open>
  A session that \<^verbatim>\<open>decompress\<close> does not reach: a model of order 0, whose root has no child
  slots, with a history of one symbol.
\<close>

definition strayModel :: "FrequencyTable PpmModel" where
  "strayModel =
     \<lparr>modelOrder = 0, rootContext = Some (newContext False),
      orderMinus1Freqs = replicate symbolLimit 1\<rparr>"

definition straySession :: "(ArithmeticDecoder, FrequencyTable) session" where
  "straySession = (startOf emptyStream)\<lparr>model := strayModel, history := [65]\<rparr>"


section \<open>What decodeSymbol and the loop body leave alone\<close>

lemma orderBody_Return:
  "orderBody E s k = Return symbol s' \<Longrightarrow> symbol < 256 \<and> (\<exists>d. s' = s\<lparr>dec := d\<rparr>)"
  by (auto simp: orderBody_def split: option.splits lookup.splits sum.splits if_splits prod.splits)

lemma orderBody_Continue:
  "orderBody E s k = Continue s' \<Longrightarrow> \<exists>d. s' = s\<lparr>dec := d\<rparr>"
  by (auto simp: orderBody_def split: option.splits lookup.splits sum.splits if_splits prod.splits
           intro: exI [of _ "dec s"])

lemma orderLoop_Return:
  "orderLoop E k s = Return symbol s' \<Longrightarrow> symbol < 256 \<and> (\<exists>d. s' = s\<lparr>dec := d\<rparr>)"
proof (induction k arbitrary: s)
  case 0
  then show ?case by (simp add: orderBody_Return)
next
  case (Suc k)
  show ?case
  proof (cases "orderBody E s (Suc k)")
    case (Return x1 x2)
    with Suc.prems show ?thesis by (simp add: orderBody_Return)
  next
    case (Continue s1)
    with Suc.prems have "orderLoop E k s1 = Return symbol s'" by simp
    from Suc.IH [OF this] orderBody_Continue [OF Continue] show ?thesis by auto
  next
    case (Throw e)
    with Suc.prems show ?thesis by simp
  qed
qed

lemma orderLoop_Continue:
  "orderLoop E k s = Continue s' \<Longrightarrow> \<exists>d. s' = s\<lparr>dec := d\<rparr>"
proof (induction k arbitrary: s)
  case 0
  then show ?case by (simp add: orderBody_Continue)
next
  case (Suc k)
  show ?case
  proof (cases "orderBody E s (Suc k)")
    case (Return x1 x2)
    with Suc.prems show ?thesis by simp
  next
    case (Continue s1)
    with Suc.prems have "orderLoop E k s1 = Continue s'" by simp
    from Suc.IH [OF this] orderBody_Continue [OF Continue] show ?thesis by auto
  next
    case (Throw e)
    with Suc.prems show ?thesis by simp
  qed
qed

lemma decodeSymbol_frame:
  assumes "decodeSymbol E s = Inr (symbol, s')"
  shows "\<exists>d. s' = s\<lparr>dec := d\<rparr>"
proof (cases "orderLoop E (length (history s)) s")
  case (Return x1 x2)
  with assms have "orderLoop E (length (history s)) s = Return symbol s'"
    by (simp add: decodeSymbol_def)
  then show ?thesis by (simp add: orderLoop_Return)
next
  case (Continue s1)
  from orderLoop_Continue [OF this] obtain d1 where "s1 = s\<lparr>dec := d1\<rparr>" ..
  with assms Continue show ?thesis
    by (auto simp: decodeSymbol_def split: sum.splits prod.splits)
next
  case (Throw e)
  with assms show ?thesis by (simp add: decodeSymbol_def)
qed

lemma decodeSymbol_keeps:
  assumes "decodeSymbol E s = Inr (symbol, s')"
  shows "model s' = model s" "history s' = history s" "out s' = out s"
  using decodeSymbol_frame [OF assms] by auto

lemma loopBody_Break: "loopBody E s = Break s' \<longleftrightarrow> decodeSymbol E s = Inr (256, s')"
  by (auto simp: loopBody_def Let_def split: sum.splits prod.splits)

lemma loopBody_Next:
  "loopBody E s = Next s' \<longleftrightarrow>
     (\<exists>symbol s1 m. decodeSymbol E s = Inr (symbol, s1) \<and> symbol \<noteq> 256 \<and>
        incrementContexts E (model s) (history s) symbol = Inr m \<and>
        s' = s1\<lparr>out := out s @ [toChar (charIsSigned E) symbol], model := m,
                history := prepend (modelOrder m) symbol (history s)\<rparr>)"
proof (cases "decodeSymbol E s")
  case (Inl e)
  then show ?thesis by (simp add: loopBody_def)
next
  case (Inr p)
  obtain symbol s1 where p: "p = (symbol, s1)" by (cases p)
  from decodeSymbol_keeps [of E s symbol s1] Inr p
  have k: "model s1 = model s" "history s1 = history s" "out s1 = out s" by simp_all
  show ?thesis
    using Inr p k by (auto simp: loopBody_def Let_def split: sum.splits)
qed

lemma prepend_take:
  "length h \<le> nat N \<Longrightarrow> prepend N symbol h = take (nat N) (symbol # h)"
  by (cases h rule: rev_cases) (auto simp: prepend_def take_Cons' not_le)


section \<open>The walk of the source and the walk of the specification\<close>

lemma descend_contextNode:
  "i \<le> order \<Longrightarrow> order \<le> length h \<Longrightarrow> walkable ctx (drop i h) \<Longrightarrow>
   descend h order i ctx =
     (case contextNode ctx (take (order - i) (drop i h)) of
        None \<Rightarrow> OuterEnd
      | Some node \<Rightarrow> Found node)"
proof (induction h order i ctx rule: descend.induct)
  case (1 h order i ctx)
  show ?case
  proof (cases "i < order")
    case False
    with "1.prems" show ?thesis by (simp add: descend.simps)
  next
    case True
    with "1.prems" have il: "i < length h" by simp
    then have d: "drop i h = h ! i # drop (Suc i) h" by (simp add: Cons_nth_drop_Suc)
    from True have t: "order - i = Suc (order - Suc i)" by simp
    from "1.prems"(3) d have inr: "unat (h ! i) < length (subcontexts ctx)" by simp
    then have ne: "subcontexts ctx \<noteq> []" by auto
    show ?thesis
    proof (cases "subcontexts ctx ! unat (h ! i)")
      case None
      with True il inr ne show ?thesis
        by (subst descend.simps) (simp add: d t)
    next
      case (Some child)
      from "1.prems"(3) d Some have w: "walkable child (drop (Suc i) h)" by simp
      from True have "Suc i \<le> order" by simp
      from "1.IH" [OF True ne _ _ Some this "1.prems"(2) w] il inr
      have "descend h order (Suc i) child =
        (case contextNode child (take (order - Suc i) (drop (Suc i) h)) of
           None \<Rightarrow> OuterEnd | Some node \<Rightarrow> Found node)"
        by simp
      with True il inr ne Some show ?thesis
        by (subst descend.simps) (simp add: d t)
    qed
  qed
qed

lemma orderBody_specOrder:
  assumes "rootContext (model s) = Some root" "walkable root (history s)"
    "order \<le> length (history s)"
  shows "orderBody E s order = specOrder E s order"
  using assms descend_contextNode [of 0 order "history s" root]
  by (simp add: orderBody_def specOrder_def split: option.splits)

lemma specOrder_Continue:
  "specOrder E s k = Continue s' \<Longrightarrow> \<exists>d. s' = s\<lparr>dec := d\<rparr>"
  by (auto simp: specOrder_def split: option.splits sum.splits if_splits prod.splits
           intro: exI [of _ "dec s"])

lemma orderLoop_specLoop:
  assumes "rootContext (model s) = Some root" "walkable root (history s)"
    "order \<le> length (history s)"
  shows "orderLoop E order s = specLoop E order s"
  using assms
proof (induction order arbitrary: s)
  case 0
  then show ?case by (simp add: orderBody_specOrder)
next
  case (Suc k)
  have b: "orderBody E s (Suc k) = specOrder E s (Suc k)"
    using Suc.prems by (rule orderBody_specOrder)
  show ?case
  proof (cases "specOrder E s (Suc k)")
    case (Continue s1)
    from specOrder_Continue [OF Continue]
    have "model s1 = model s" "history s1 = history s"
      by auto
    with Suc.prems have "orderLoop E k s1 = specLoop E k s1"
      by (intro Suc.IH) simp_all
    with b Continue show ?thesis by simp
  qed (simp_all add: b)
qed

lemma decodeSymbol_decodeOneSymbol:
  assumes "rootContext (model s) = Some root" "walkable root (history s)"
  shows "decodeSymbol E s = decodeOneSymbol E s"
  using orderLoop_specLoop [OF assms, of "length (history s)" E]
  by (simp add: decodeSymbol_def decodeOneSymbol_def)

section \<open>The reads of one decodeSymbol\<close>

lemma logging_sel [simp]:
  "read (logging E) (d, l) t =
     (case read E d t of Inl e \<Rightarrow> Inl e | Inr (symbol, d') \<Rightarrow> Inr (symbol, (d', l @ [(t, symbol)])))"
  "incrementContexts (logging E) = incrementContexts E"
  "charIsSigned (logging E) = charIsSigned E"
  by (simp_all add: logging_def split: sum.splits)

lemma withLog_sel [simp]:
  "dec (withLog l s) = (dec s, l)" "model (withLog l s) = model s"
  "history (withLog l s) = history s" "out (withLog l s) = out s"
  by (simp_all add: withLog_def)

lemma withLog_dec [simp]: "(withLog l s)\<lparr>dec := (d, l')\<rparr> = withLog l' (s\<lparr>dec := d\<rparr>)"
  by (simp add: withLog_def)

lemma orderBody_logging:
  "orderBody (logging E) (withLog l s) k =
     (case orderBody E s k of
        Throw e \<Rightarrow> Throw e
      | Return symbol s' \<Rightarrow>
          Return symbol (withLog (l @ [(frequencies (case descend (history s) k 0 (the (rootContext (model s))) of Found c \<Rightarrow> c), symbol)]) s')
      | Continue s' \<Rightarrow>
          (case descend (history s) k 0 (the (rootContext (model s))) of
             Found c \<Rightarrow> Continue (withLog (l @ [(frequencies c, fst (projr (read E (dec s) (frequencies c))))]) s')
           | _ \<Rightarrow> Continue (withLog l s')))"
  by (auto simp: orderBody_def split: option.splits lookup.splits sum.splits prod.splits)

lemma orderBody_logging_Return:
  assumes "orderBody E s k = Return symbol s'"
  shows "\<exists>t. orderBody (logging E) (withLog l s) k = Return symbol (withLog (l @ [(t, symbol)]) s')"
  using assms by (auto simp: orderBody_logging)

lemma orderBody_logging_Throw:
  assumes "orderBody E s k = Throw e"
  shows "orderBody (logging E) (withLog l s) k = Throw e"
  using assms by (auto simp: orderBody_logging)

lemma orderBody_logging_Continue:
  assumes "orderBody E s k = Continue s'"
  shows "\<exists>new. orderBody (logging E) (withLog l s) k = Continue (withLog (l @ new) s') \<and>
           length new \<le> 1 \<and> (\<forall>x \<in> set new. 256 \<le> snd x)"
proof (cases "descend (history s) k 0 (the (rootContext (model s)))")
  case (Found c)
  with assms have "\<not> fst (projr (read E (dec s) (frequencies c))) < 256"
    by (auto simp: orderBody_def split: option.splits sum.splits prod.splits if_splits)
  with assms Found show ?thesis
    by (intro exI [of _ "[(frequencies c, fst (projr (read E (dec s) (frequencies c))))]"])
       (simp add: orderBody_logging not_less)
next
  case OuterEnd
  with assms show ?thesis by (intro exI [of _ "[]"]) (simp add: orderBody_logging)
next
  case (Thrown e)
  with assms show ?thesis by (intro exI [of _ "[]"]) (simp add: orderBody_logging)
qed

lemma orderLoop_logging_Throw:
  "orderLoop E k s = Throw e \<Longrightarrow> orderLoop (logging E) k (withLog l s) = Throw e"
proof (induction k arbitrary: s l)
  case 0
  then show ?case by (simp add: orderBody_logging_Throw)
next
  case (Suc k)
  show ?case
  proof (cases "orderBody E s (Suc k)")
    case (Return x1 x2)
    with Suc.prems show ?thesis by simp
  next
    case (Continue s1)
    from orderBody_logging_Continue [OF this, of l] obtain new where
      "orderBody (logging E) (withLog l s) (Suc k) = Continue (withLog (l @ new) s1)" by blast
    moreover from Continue Suc.prems have "orderLoop E k s1 = Throw e" by simp
    ultimately show ?thesis using Suc.IH by simp
  next
    case (Throw e')
    with Suc.prems show ?thesis by (simp add: orderBody_logging_Throw)
  qed
qed

lemma orderLoop_logging_Continue:
  "orderLoop E k s = Continue s' \<Longrightarrow>
   \<exists>new. orderLoop (logging E) k (withLog l s) = Continue (withLog (l @ new) s') \<and>
     length new \<le> Suc k \<and> (\<forall>x \<in> set new. 256 \<le> snd x)"
proof (induction k arbitrary: s l)
  case 0
  from orderBody_logging_Continue [of E s 0 s' l] 0 show ?case by auto
next
  case (Suc k)
  show ?case
  proof (cases "orderBody E s (Suc k)")
    case (Return x1 x2)
    with Suc.prems show ?thesis by simp
  next
    case (Continue s1)
    from orderBody_logging_Continue [OF this, of l] obtain new where
      n: "orderBody (logging E) (withLog l s) (Suc k) = Continue (withLog (l @ new) s1)"
        "length new \<le> 1" "\<forall>x \<in> set new. 256 \<le> snd x" by blast
    from Continue Suc.prems have "orderLoop E k s1 = Continue s'" by simp
    from Suc.IH [OF this, of "l @ new"] obtain new' where
      n': "orderLoop (logging E) k (withLog (l @ new) s1) = Continue (withLog ((l @ new) @ new') s')"
        "length new' \<le> Suc k" "\<forall>x \<in> set new'. 256 \<le> snd x" by blast
    from n n' show ?thesis
      by (intro exI [of _ "new @ new'"]) auto
  next
    case (Throw e')
    with Suc.prems show ?thesis by simp
  qed
qed

lemma orderLoop_logging_Return:
  "orderLoop E k s = Return symbol s' \<Longrightarrow>
   \<exists>new t. orderLoop (logging E) k (withLog l s) = Return symbol (withLog (l @ new @ [(t, symbol)]) s') \<and>
     length new \<le> k \<and> (\<forall>x \<in> set new. 256 \<le> snd x)"
proof (induction k arbitrary: s l)
  case 0
  from orderBody_logging_Return [of E s 0 symbol s' l] 0 obtain t where
    "orderBody (logging E) (withLog l s) 0 = Return symbol (withLog (l @ [(t, symbol)]) s')"
    by auto
  then show ?case by (intro exI [of _ "[]"] exI [of _ t]) simp
next
  case (Suc k)
  show ?case
  proof (cases "orderBody E s (Suc k)")
    case (Return x1 x2)
    with Suc.prems have "orderBody E s (Suc k) = Return symbol s'" by simp
    from orderBody_logging_Return [OF this, of l] obtain t where
      "orderBody (logging E) (withLog l s) (Suc k) = Return symbol (withLog (l @ [(t, symbol)]) s')"
      by auto
    then show ?thesis by (intro exI [of _ "[]"] exI [of _ t]) simp
  next
    case (Continue s1)
    from orderBody_logging_Continue [OF this, of l] obtain new where
      n: "orderBody (logging E) (withLog l s) (Suc k) = Continue (withLog (l @ new) s1)"
        "length new \<le> 1" "\<forall>x \<in> set new. 256 \<le> snd x" by blast
    from Continue Suc.prems have "orderLoop E k s1 = Return symbol s'" by simp
    from Suc.IH [OF this, of "l @ new"] obtain new' t where
      n': "orderLoop (logging E) k (withLog (l @ new) s1) =
            Return symbol (withLog ((l @ new) @ new' @ [(t, symbol)]) s')"
        "length new' \<le> k" "\<forall>x \<in> set new'. 256 \<le> snd x" by blast
    from n n' show ?thesis
      by (intro exI [of _ "new @ new'"] exI [of _ t]) auto
  next
    case (Throw e')
    with Suc.prems show ?thesis by simp
  qed
qed

lemma decodeSymbol_logging:
  assumes "decodeSymbol E s = Inr (symbol, s')"
  shows "\<exists>new t. decodeSymbol (logging E) (withLog l s) =
            Inr (symbol, withLog (l @ new @ [(t, symbol)]) s') \<and>
          length new \<le> Suc (length (history s)) \<and> (\<forall>x \<in> set new. 256 \<le> snd x)"
proof (cases "orderLoop E (length (history s)) s")
  case (Return x1 x2)
  with assms have "orderLoop E (length (history s)) s = Return symbol s'"
    by (simp add: decodeSymbol_def)
  from orderLoop_logging_Return [OF this, of l] obtain new t where
    "orderLoop (logging E) (length (history s)) (withLog l s) =
       Return symbol (withLog (l @ new @ [(t, symbol)]) s')"
    "length new \<le> length (history s)" "\<forall>x \<in> set new. 256 \<le> snd x" by blast
  then show ?thesis
    by (intro exI [of _ new] exI [of _ t]) (simp add: decodeSymbol_def)
next
  case (Continue s1)
  from orderLoop_logging_Continue [OF this, of l] obtain new where
    n: "orderLoop (logging E) (length (history s)) (withLog l s) = Continue (withLog (l @ new) s1)"
      "length new \<le> Suc (length (history s))" "\<forall>x \<in> set new. 256 \<le> snd x" by blast
  from assms Continue obtain d where
    r: "read E (dec s1) (orderMinus1Freqs (model s1)) = Inr (symbol, d)" "s' = s1\<lparr>dec := d\<rparr>"
    by (auto simp: decodeSymbol_def split: sum.splits prod.splits)
  from n r show ?thesis
    by (intro exI [of _ new] exI [of _ "orderMinus1Freqs (model s1)"])
       (simp add: decodeSymbol_def)
next
  case (Throw e)
  with assms show ?thesis by (simp add: decodeSymbol_def)
qed

lemma tableAt_dec [simp]: "tableAt (s\<lparr>dec := d\<rparr>) k = tableAt s k"
  by (simp add: tableAt_def split: option.splits)

lemma tablesDown_dec [simp]: "tablesDown (s\<lparr>dec := d\<rparr>) k = tablesDown s k"
  by (induction k) simp_all

lemma orderBody_logging_Continue_table:
  assumes "orderBody E s k = Continue s'"
  shows "\<exists>new. orderBody (logging E) (withLog l s) k = Continue (withLog (l @ new) s') \<and>
           map fst new = tableAt s k \<and> (\<forall>x \<in> set new. 256 \<le> snd x)"
proof -
  from assms obtain root where r: "rootContext (model s) = Some root"
    by (auto simp: orderBody_def split: option.splits)
  show ?thesis
  proof (cases "descend (history s) k 0 root")
    case (Found c)
    with assms r have "\<not> fst (projr (read E (dec s) (frequencies c))) < 256"
      by (auto simp: orderBody_def split: option.splits sum.splits prod.splits if_splits)
    with assms Found r show ?thesis
      by (intro exI [of _ "[(frequencies c, fst (projr (read E (dec s) (frequencies c))))]"])
         (simp add: orderBody_logging not_less tableAt_def)
  next
    case OuterEnd
    with assms r show ?thesis
      by (intro exI [of _ "[]"]) (simp add: orderBody_logging tableAt_def)
  next
    case (Thrown e)
    with assms r show ?thesis by (simp add: orderBody_def)
  qed
qed

lemma orderLoop_logging_Continue_tables:
  "orderLoop E k s = Continue s' \<Longrightarrow>
   \<exists>new. orderLoop (logging E) k (withLog l s) = Continue (withLog (l @ new) s') \<and>
     map fst new = tablesDown s k \<and> (\<forall>x \<in> set new. 256 \<le> snd x)"
proof (induction k arbitrary: s l)
  case 0
  from orderBody_logging_Continue_table [of E s 0 s' l] 0 show ?case by auto
next
  case (Suc k)
  show ?case
  proof (cases "orderBody E s (Suc k)")
    case (Return x1 x2)
    with Suc.prems show ?thesis by simp
  next
    case (Continue s1)
    from orderBody_logging_Continue_table [OF this, of l] obtain new where
      n: "orderBody (logging E) (withLog l s) (Suc k) = Continue (withLog (l @ new) s1)"
        "map fst new = tableAt s (Suc k)" "\<forall>x \<in> set new. 256 \<le> snd x" by blast
    from orderBody_Continue [OF Continue] obtain d where s1: "s1 = s\<lparr>dec := d\<rparr>" ..
    from Continue Suc.prems have "orderLoop E k s1 = Continue s'" by simp
    from Suc.IH [OF this, of "l @ new"] obtain new' where
      n': "orderLoop (logging E) k (withLog (l @ new) s1) = Continue (withLog ((l @ new) @ new') s')"
        "map fst new' = tablesDown s1 k" "\<forall>x \<in> set new'. 256 \<le> snd x" by blast
    from n n' s1 show ?thesis
      by (intro exI [of _ "new @ new'"]) auto
  next
    case (Throw e')
    with Suc.prems show ?thesis by simp
  qed
qed

lemma decodeSymbol_logging_Inl:
  assumes "decodeSymbol E s = Inl e"
  shows "decodeSymbol (logging E) (withLog l s) = Inl e"
proof (cases "orderLoop E (length (history s)) s")
  case (Return x1 x2)
  with assms show ?thesis by (simp add: decodeSymbol_def)
next
  case (Continue s1)
  from orderLoop_logging_Continue [OF this, of l] obtain new where
    "orderLoop (logging E) (length (history s)) (withLog l s) = Continue (withLog (l @ new) s1)"
    by blast
  with assms Continue show ?thesis
    by (auto simp: decodeSymbol_def split: sum.splits prod.splits)
next
  case (Throw e')
  with assms orderLoop_logging_Throw [OF Throw, of l] show ?thesis
    by (simp add: decodeSymbol_def)
qed

lemma withLog_inject: "withLog l s = withLog l' s' \<longleftrightarrow> l = l' \<and> s = s'"
  by (cases s; cases s') (auto simp: withLog_def)

lemma decodeSymbol_logging_Inr:
  assumes "decodeSymbol (logging E) (withLog l s) = Inr (symbol, withLog l' s')"
  shows "decodeSymbol E s = Inr (symbol, s')"
proof (cases "decodeSymbol E s")
  case (Inl e)
  from decodeSymbol_logging_Inl [OF this, of l] assms show ?thesis by simp
next
  case (Inr p)
  obtain symbol2 s2 where p: "p = (symbol2, s2)" by (cases p)
  from decodeSymbol_logging [of E s symbol2 s2 l] Inr p assms
  show ?thesis by (auto simp: withLog_inject)
qed

lemma decodeSymbol_256:
  "decodeSymbol E s = Inr (256, s') \<longleftrightarrow>
     (\<exists>s1 d. orderLoop E (length (history s)) s = Continue s1 \<and>
        read E (dec s1) (orderMinus1Freqs (model s1)) = Inr (256, d) \<and> s' = s1\<lparr>dec := d\<rparr>)"
proof (cases "orderLoop E (length (history s)) s")
  case (Return symbol s1)
  with orderLoop_Return [OF this] show ?thesis
    by (auto simp: decodeSymbol_def)
next
  case (Continue s1)
  then show ?thesis
    by (auto simp: decodeSymbol_def split: sum.splits)
next
  case (Throw e)
  then show ?thesis by (simp add: decodeSymbol_def)
qed

lemma decodeSymbol_256_reads:
  assumes "decodeSymbol E s = Inr (256, s')"
  shows "\<exists>esc. decodeSymbol (logging E) (withLog l s) =
            Inr (256, withLog (l @ esc @ [(orderMinus1Freqs (model s), 256)]) s') \<and>
          map fst esc = tablesDown s (length (history s)) \<and> (\<forall>x \<in> set esc. 256 \<le> snd x)"
proof -
  from assms [unfolded decodeSymbol_256] obtain s1 d where
    c: "orderLoop E (length (history s)) s = Continue s1" and
    r: "read E (dec s1) (orderMinus1Freqs (model s1)) = Inr (256, d)" and
    s': "s' = s1\<lparr>dec := d\<rparr>" by blast
  from orderLoop_Continue [OF c] have m: "model s1 = model s" by auto
  from orderLoop_logging_Continue_tables [OF c, of l] obtain esc where
    e: "orderLoop (logging E) (length (history s)) (withLog l s) = Continue (withLog (l @ esc) s1)"
      "map fst esc = tablesDown s (length (history s))" "\<forall>x \<in> set esc. 256 \<le> snd x"
    by blast
  from e r s' m show ?thesis
    by (intro exI [of _ esc]) (simp add: decodeSymbol_def)
qed

section \<open>The history and the passes of the loop\<close>

lemma take_append_take: "take n (xs @ take n ys) = take n (xs @ ys)"
  by (simp add: min_def)

lemma decodedAfter_history:
  assumes "keepsOrder E"
  shows "decodedAfter E n s0 = Some (syms, s) \<Longrightarrow>
         length (history s0) \<le> nat (modelOrder (model s0)) \<Longrightarrow>
         history s = take (nat (modelOrder (model s0))) (rev syms @ history s0) \<and>
         modelOrder (model s) = modelOrder (model s0) \<and> 256 \<notin> set syms \<and> length syms = n"
proof (induction n arbitrary: s0 syms)
  case 0
  then show ?case by simp
next
  case (Suc n)
  from Suc.prems(1) obtain symbol s1 s2 rest where
    d: "decodeSymbol E s0 = Inr (symbol, s1)" and
    b: "loopBody E s0 = Next s2" and
    r: "decodedAfter E n s2 = Some (rest, s)" and
    sy: "syms = symbol # rest"
    by (auto split: sum.splits prod.splits iteration.splits)
  from b [unfolded loopBody_Next] d obtain m where
    ne: "symbol \<noteq> 256" and
    i: "incrementContexts E (model s0) (history s0) symbol = Inr m" and
    s2: "s2 = s1\<lparr>out := out s0 @ [toChar (charIsSigned E) symbol], model := m,
                  history := prepend (modelOrder m) symbol (history s0)\<rparr>"
    by auto
  from assms i have o: "modelOrder m = modelOrder (model s0)"
    by (auto simp: keepsOrder_def)
  from s2 o Suc.prems(2)
  have h2: "history s2 = take (nat (modelOrder (model s0))) (symbol # history s0)"
    and o2: "modelOrder (model s2) = modelOrder (model s0)"
    by (simp_all add: prepend_take)
  then have "length (history s2) \<le> nat (modelOrder (model s2))" by simp
  from Suc.IH [OF r this] h2 o2 sy ne show ?case
    by (simp add: take_append_take)
qed

lemma decodedAfter_decompressLoop:
  "decodedAfter E k s = Some (syms, t) \<Longrightarrow> decompressLoop E (k + m) s = decompressLoop E m t"
proof (induction k arbitrary: s syms)
  case 0
  then show ?case by simp
next
  case (Suc k)
  from Suc.prems obtain s2 rest where
    b: "loopBody E s = Next s2" and r: "decodedAfter E k s2 = Some (rest, t)"
    by (auto split: sum.splits prod.splits iteration.splits)
  from Suc.IH [OF r] b show ?case by simp
qed

lemma decompressLoop_Completed:
  "decompressLoop E n s = Some (Completed s') \<Longrightarrow>
   \<exists>k syms t. k < n \<and> decodedAfter E k s = Some (syms, t) \<and> loopBody E t = Break s'"
proof (induction E n s rule: decompressLoop.induct)
  case (1 E s)
  then show ?case by simp
next
  case (2 E n s)
  show ?case
  proof (cases "loopBody E s")
    case (Next s1)
    with "2.prems" have "decompressLoop E n s1 = Some (Completed s')" by simp
    from "2.IH" [OF Next this] obtain k syms t where
      k: "k < n" "decodedAfter E k s1 = Some (syms, t)" "loopBody E t = Break s'" by blast
    from Next [unfolded loopBody_Next] obtain symbol s2 where
      "decodeSymbol E s = Inr (symbol, s2)" by blast
    with Next k have "decodedAfter E (Suc k) s = Some (symbol # syms, t)" by simp
    with k show ?thesis by (intro exI [of _ "Suc k"]) auto
  next
    case (Break s1)
    with "2.prems" have "s1 = s'" by simp
    with Break have "decodedAfter E 0 s = Some ([], s) \<and> loopBody E s = Break s'" by simp
    then show ?thesis by (intro exI [of _ 0]) auto
  next
    case (Abort e bs)
    with "2.prems" show ?thesis by simp
  qed
qed

lemma decompressLoop_Completed_iff:
  "decompressLoop E n s = Some (Completed s') \<longleftrightarrow>
   (\<exists>k syms t. k < n \<and> decodedAfter E k s = Some (syms, t) \<and> loopBody E t = Break s')"
proof
  assume "decompressLoop E n s = Some (Completed s')"
  then show "\<exists>k syms t. k < n \<and> decodedAfter E k s = Some (syms, t) \<and> loopBody E t = Break s'"
    by (rule decompressLoop_Completed)
next
  assume "\<exists>k syms t. k < n \<and> decodedAfter E k s = Some (syms, t) \<and> loopBody E t = Break s'"
  then obtain k syms t where k: "k < n" "decodedAfter E k s = Some (syms, t)"
    "loopBody E t = Break s'" by blast
  from k(1) obtain m where n: "n = k + Suc m" by (auto simp: less_iff_Suc_add)
  from decodedAfter_decompressLoop [OF k(2), of "Suc m"] k(3) n
  show "decompressLoop E n s = Some (Completed s')" by simp
qed

lemma toChar_table:
  "\<forall>n \<in> set [0..<256].
     unat (toChar True (of_nat n)) = n \<and> unat (toChar False (of_nat n)) = n \<and>
     sint (adjust True (of_nat n)) = (if 128 \<le> n then int n - 256 else int n) \<and>
     sint (toChar True (of_nat n)) = sint (adjust True (of_nat n))"
  by code_simp

lemma toChar_below_256:
  assumes "symbol < 256"
  shows "unat (toChar is_signed symbol) = unat symbol"
    and "sint (adjust True symbol) = (if 128 \<le> symbol then uint symbol - 256 else uint symbol)"
    and "sint (toChar True symbol) = sint (adjust True symbol)"
proof -
  from assms have n: "unat symbol \<in> set [0..<256]" by (simp add: word_less_nat_alt)
  have w: "of_nat (unat symbol) = symbol" by simp
  note t = toChar_table [rule_format, OF n, unfolded w]
  show "unat (toChar is_signed symbol) = unat symbol"
    using t by (cases is_signed) simp_all
  show "sint (adjust True symbol) = (if 128 \<le> symbol then uint symbol - 256 else uint symbol)"
    using t assms by (auto simp: word_le_nat_alt)
  show "sint (toChar True symbol) = sint (adjust True symbol)"
    using t by simp
qed

lemma loopBody_Abort_out:
  assumes "decodeSymbol E s = Inr (symbol, s1)" "loopBody E s = Abort e bs"
  shows "bs = out s @ [toChar (charIsSigned E) symbol]"
  using assms decodeSymbol_keeps(3) [OF assms(1)]
  by (auto simp: loopBody_def Let_def split: sum.splits if_splits)


section \<open>The signedness of char and the code of the collaborators\<close>











section \<open>The bytes written when the loop is left\<close>



section \<open>A model without a root context\<close>

lemma orderLoop_null_root:
  "rootContext (model s) = None \<Longrightarrow> orderLoop E k s = Throw NullDereference"
  by (cases k) (simp_all add: orderBody_def)

lemma decodeSymbol_null_root:
  "rootContext (model s) = None \<Longrightarrow> decodeSymbol E s = Inl NullDereference"
  by (simp add: decodeSymbol_def orderLoop_null_root)

lemma decompressLoop_null_root:
  "rootContext (model s) = None \<Longrightarrow>
   decompressLoop E (Suc n) s = Some (Aborted NullDereference (out s))"
  by (simp add: loopBody_def decodeSymbol_null_root)

section \<open>The claims\<close>

text \<open>
  C10. For every decoded literal symbol \<open>s\<close> in 0..255 the byte put to the output has the
  unsigned value \<open>s\<close>, whether \<^verbatim>\<open>char\<close> is signed or not (also when \<open>incrementContexts\<close>
  throws after the byte was put); where \<^verbatim>\<open>char\<close> is signed, the adjustment of line 75 maps
  \<open>s\<close> in 128..255 to \<open>s - 256\<close> and leaves smaller \<open>s\<close> alone, and the stored \<^verbatim>\<open>char\<close> holds
  exactly that value.
\<close>

theorem put_stores_the_symbol:
  assumes "decodeSymbol E s = Inr (symbol, s1)" and "symbol < 256"
  shows "(\<forall>s'. loopBody E s = Next s' \<longrightarrow> out s' = out s @ [toChar (charIsSigned E) symbol]) \<and>
         (\<forall>e bs. loopBody E s = Abort e bs \<longrightarrow> bs = out s @ [toChar (charIsSigned E) symbol]) \<and>
         unat (toChar (charIsSigned E) symbol) = unat symbol \<and>
         sint (adjust True symbol) = (if 128 \<le> symbol then uint symbol - 256 else uint symbol) \<and>
         sint (toChar True symbol) = sint (adjust True symbol)"
proof -
  have "\<forall>s'. loopBody E s = Next s' \<longrightarrow> out s' = out s @ [toChar (charIsSigned E) symbol]"
    using assms(1) by (auto simp: loopBody_Next)
  moreover have "\<forall>e bs. loopBody E s = Abort e bs \<longrightarrow> bs = out s @ [toChar (charIsSigned E) symbol]"
    using loopBody_Abort_out [OF assms(1)] by blast
  ultimately show ?thesis using toChar_below_256 [OF assms(2)] by simp
qed

theorem put_stores_the_symbol_witness:
  "decodeSymbol (reference True) (startOf highStream) =
     Inr (200, snd (projr (decodeSymbol (reference True) (startOf highStream)))) \<and>
   (case loopBody (reference True) (startOf highStream) of
      Next s' \<Rightarrow> out s' = [toChar True 200] | _ \<Rightarrow> False) \<and>
   unat (toChar True 200) = 200 \<and> sint (adjust True 200) = - 56 \<and> sint (toChar True 200) = - 56"
proof -
  have d: "decodeSymbol (reference True) (startOf highStream) =
     Inr (200, snd (projr (decodeSymbol (reference True) (startOf highStream))))"
    by code_simp
  have l: "(200 :: uint32) < 256" by simp
  have n: "loopBody (reference True) (startOf highStream) =
     Next (case loopBody (reference True) (startOf highStream) of Next s' \<Rightarrow> s')"
    by code_simp
  have c: "charIsSigned (reference True) = True" "out (startOf highStream) = []"
    by code_simp+
  from put_stores_the_symbol [OF d l] n c show ?thesis
    using d by (auto split: iteration.splits)
qed

text \<open>
  C9. \<^verbatim>\<open>decodeSymbol\<close> changes the decoder only: after every call that returns, the model
  (its context tree and every frequency table), the history and the output are what they
  were before it. In a pass of the loop that goes round again the model is changed once,
  by \<open>incrementContexts\<close> on the model, the history and the symbol of that pass, after
  \<^verbatim>\<open>decodeSymbol\<close> has returned the symbol; a pass that breaks leaves the model alone.
\<close>

theorem decodeSymbol_mutates_decoder_only:
  "(\<forall>symbol s1. decodeSymbol E s = Inr (symbol, s1) \<longrightarrow>
      model s1 = model s \<and> history s1 = history s \<and> out s1 = out s) \<and>
   (\<forall>s'. loopBody E s = Next s' \<longrightarrow>
      (\<exists>symbol s1. decodeSymbol E s = Inr (symbol, s1) \<and> model s1 = model s \<and>
         incrementContexts E (model s) (history s) symbol = Inr (model s'))) \<and>
   (\<forall>s'. loopBody E s = Break s' \<longrightarrow> model s' = model s \<and> history s' = history s)"
proof -
  have a: "\<forall>symbol s1. decodeSymbol E s = Inr (symbol, s1) \<longrightarrow>
      model s1 = model s \<and> history s1 = history s \<and> out s1 = out s"
    using decodeSymbol_keeps by blast
  have b: "\<forall>s'. loopBody E s = Next s' \<longrightarrow>
      (\<exists>symbol s1. decodeSymbol E s = Inr (symbol, s1) \<and> model s1 = model s \<and>
         incrementContexts E (model s) (history s) symbol = Inr (model s'))"
  proof (intro allI impI)
    fix s' assume "loopBody E s = Next s'"
    then obtain symbol s1 m where
      d: "decodeSymbol E s = Inr (symbol, s1)" and
      i: "incrementContexts E (model s) (history s) symbol = Inr m" and
      s': "s' = s1\<lparr>out := out s @ [toChar (charIsSigned E) symbol], model := m,
                history := prepend (modelOrder m) symbol (history s)\<rparr>"
      unfolding loopBody_Next by blast
    from s' have "model s' = m" by simp
    with d i decodeSymbol_keeps(1) [OF d]
    show "\<exists>symbol s1. decodeSymbol E s = Inr (symbol, s1) \<and> model s1 = model s \<and>
         incrementContexts E (model s) (history s) symbol = Inr (model s')"
      by blast
  qed
  have c: "\<forall>s'. loopBody E s = Break s' \<longrightarrow> model s' = model s \<and> history s' = history s"
    using decodeSymbol_keeps by (auto simp: loopBody_Break)
  from a b c show ?thesis by blast
qed

theorem decodeSymbol_mutates_decoder_only_witness:
  "(case decodeSymbol (reference True) (startOf ababaStream) of
      Inr (symbol, s1) \<Rightarrow> symbol = 65 \<and> model s1 = model (startOf ababaStream) \<and>
        history s1 = [] \<and> out s1 = []
    | Inl e \<Rightarrow> False) \<and>
   (case loopBody (reference True) (startOf ababaStream) of
      Next s' \<Rightarrow> PpmModel_incrementContexts (model (startOf ababaStream)) [] 65 = Inr (model s')
    | _ \<Rightarrow> False) \<and>
   (case loopBody (reference True) (startOf emptyStream) of
      Break s' \<Rightarrow> model s' = model (startOf emptyStream) \<and> history s' = []
    | _ \<Rightarrow> False)"
proof -
  define s1 where "s1 = snd (projr (decodeSymbol (reference True) (startOf ababaStream)))"
  define s2 where "s2 = (case loopBody (reference True) (startOf ababaStream) of Next s' \<Rightarrow> s')"
  define s3 where "s3 = (case loopBody (reference True) (startOf emptyStream) of Break s' \<Rightarrow> s')"
  have d: "decodeSymbol (reference True) (startOf ababaStream) = Inr (65, s1)"
    unfolding s1_def by code_simp
  have n: "loopBody (reference True) (startOf ababaStream) = Next s2"
    unfolding s2_def by code_simp
  have b: "loopBody (reference True) (startOf emptyStream) = Break s3"
    unfolding s3_def by code_simp
  have h: "history (startOf ababaStream) = []" "out (startOf ababaStream) = []"
    "history (startOf emptyStream) = []"
    by code_simp+
  have r: "incrementContexts (reference True) = PpmModel_incrementContexts"
    by (simp add: reference_def)
  note t1 = decodeSymbol_mutates_decoder_only [of "reference True" "startOf ababaStream"]
  note t2 = decodeSymbol_mutates_decoder_only [of "reference True" "startOf emptyStream"]
  from t1 have "model s1 = model (startOf ababaStream) \<and> history s1 = history (startOf ababaStream)
      \<and> out s1 = out (startOf ababaStream)"
    using d by blast
  then have 1: "(case decodeSymbol (reference True) (startOf ababaStream) of
      Inr (symbol, s1) \<Rightarrow> symbol = 65 \<and> model s1 = model (startOf ababaStream) \<and>
        history s1 = [] \<and> out s1 = []
    | Inl e \<Rightarrow> False)"
    by (simp add: d h)
  from t1 n obtain symbol s1' where
    "decodeSymbol (reference True) (startOf ababaStream) = Inr (symbol, s1')"
    "incrementContexts (reference True) (model (startOf ababaStream))
       (history (startOf ababaStream)) symbol = Inr (model s2)"
    by blast
  then have 2: "(case loopBody (reference True) (startOf ababaStream) of
      Next s' \<Rightarrow> PpmModel_incrementContexts (model (startOf ababaStream)) [] 65 = Inr (model s')
    | _ \<Rightarrow> False)"
    by (simp add: n d h r)
  from t2 b have "model s3 = model (startOf emptyStream) \<and> history s3 = history (startOf emptyStream)"
    by blast
  then have 3: "(case loopBody (reference True) (startOf emptyStream) of
      Break s' \<Rightarrow> model s' = model (startOf emptyStream) \<and> history s' = []
    | _ \<Rightarrow> False)"
    by (simp add: b h)
  from 1 2 3 show ?thesis by blast
qed

text \<open>
  C1, as amended. For every symbol other than 256 that \<^verbatim>\<open>decodeSymbol\<close> resolves,
  \<^verbatim>\<open>decompress\<close> calls \<open>incrementContexts\<close> once, on the model and the history the symbol was
  decoded with, and the next pass starts from the model that call returned (or its
  exception leaves \<^verbatim>\<open>decompress\<close>). When the symbol is 256, the end-of-stream marker, the
  loop is left by line 72 and \<open>incrementContexts\<close> is not called: the model stays as it was.
\<close>

theorem incrementContexts_once_per_literal:
  assumes "decodeSymbol E s = Inr (symbol, s1)"
  shows "(symbol = 256 \<longrightarrow> loopBody E s = Break s1 \<and> model s1 = model s) \<and>
         (symbol \<noteq> 256 \<longrightarrow>
            (\<forall>m. incrementContexts E (model s) (history s) symbol = Inr m \<longrightarrow>
               (\<exists>s'. loopBody E s = Next s' \<and> model s' = m \<and> dec s' = dec s1)) \<and>
            (\<forall>e. incrementContexts E (model s) (history s) symbol = Inl e \<longrightarrow>
               (\<exists>bs. loopBody E s = Abort e bs)))"
  using assms decodeSymbol_keeps [OF assms]
  by (auto simp: loopBody_def Let_def)

theorem incrementContexts_once_per_literal_witness:
  "(case decodeSymbol (reference True) (startOf ababaStream) of
      Inr (symbol, s1) \<Rightarrow> symbol = 65 \<and>
        (case PpmModel_incrementContexts (model (startOf ababaStream)) [] 65 of
           Inr m \<Rightarrow> (case loopBody (reference True) (startOf ababaStream) of
                       Next s' \<Rightarrow> model s' = m \<and> dec s' = dec s1 | _ \<Rightarrow> False)
         | Inl e \<Rightarrow> False)
    | Inl e \<Rightarrow> False) \<and>
   (case decodeSymbol (reference True) (startOf emptyStream) of
      Inr (symbol, s1) \<Rightarrow> symbol = 256 \<and> loopBody (reference True) (startOf emptyStream) = Break s1 \<and>
        model s1 = model (startOf emptyStream)
    | Inl e \<Rightarrow> False)"
proof -
  define s1 where "s1 = snd (projr (decodeSymbol (reference True) (startOf ababaStream)))"
  define m1 where "m1 = projr (PpmModel_incrementContexts (model (startOf ababaStream)) [] 65)"
  define s3 where "s3 = snd (projr (decodeSymbol (reference True) (startOf emptyStream)))"
  have d: "decodeSymbol (reference True) (startOf ababaStream) = Inr (65, s1)"
    unfolding s1_def by code_simp
  have i: "PpmModel_incrementContexts (model (startOf ababaStream)) [] 65 = Inr m1"
    unfolding m1_def by code_simp
  have h: "history (startOf ababaStream) = []"
    by code_simp
  have r: "incrementContexts (reference True) = PpmModel_incrementContexts"
    by (simp add: reference_def)
  have e: "decodeSymbol (reference True) (startOf emptyStream) = Inr (256, s3)"
    unfolding s3_def by code_simp
  have ne: "(65 :: uint32) \<noteq> 256" by simp
  from incrementContexts_once_per_literal [OF d] ne i h r
  obtain s' where "loopBody (reference True) (startOf ababaStream) = Next s'"
    "model s' = m1" "dec s' = dec s1"
    by auto
  then have 1: "(case decodeSymbol (reference True) (startOf ababaStream) of
      Inr (symbol, s1) \<Rightarrow> symbol = 65 \<and>
        (case PpmModel_incrementContexts (model (startOf ababaStream)) [] 65 of
           Inr m \<Rightarrow> (case loopBody (reference True) (startOf ababaStream) of
                       Next s' \<Rightarrow> model s' = m \<and> dec s' = dec s1 | _ \<Rightarrow> False)
         | Inl e \<Rightarrow> False)
    | Inl e \<Rightarrow> False)"
    by (simp add: d i)
  from incrementContexts_once_per_literal [OF e]
  have 2: "(case decodeSymbol (reference True) (startOf emptyStream) of
      Inr (symbol, s1) \<Rightarrow> symbol = 256 \<and> loopBody (reference True) (startOf emptyStream) = Break s1 \<and>
        model s1 = model (startOf emptyStream)
    | Inl e \<Rightarrow> False)"
    by (simp add: e)
  from 1 2 show ?thesis ..
qed

text \<open>
  The claim as stated fails on the compressed form of the empty input: the first
  \<^verbatim>\<open>decodeSymbol\<close> resolves the end-of-stream marker, \<^verbatim>\<open>decompress\<close> completes with the model
  as it was constructed, and one call of \<open>incrementContexts\<close> with the symbol 256 would have
  changed it.
\<close>

theorem eof_without_incrementContexts:
  "map_option written (decompress (reference True) 1 emptyStream) = Some [] \<and>
   (case decompress (reference True) 1 emptyStream of
      Some (Completed s) \<Rightarrow>
        initialSession (reference True) emptyStream = Inr (s\<lparr>dec := dec (startOf emptyStream)\<rparr>) \<and>
        (case decodeSymbol (reference True) (startOf emptyStream) of
           Inr (symbol, s1) \<Rightarrow> symbol = 256 \<and> s1 = s
         | Inl e \<Rightarrow> False) \<and>
        (case incrementContexts (reference True) (model (startOf emptyStream))
                (history (startOf emptyStream)) 256 of
           Inr m \<Rightarrow> m \<noteq> model s
         | Inl e \<Rightarrow> False)
    | _ \<Rightarrow> False)"
  by code_simp

text \<open>
  C3. A 256 read against the table of a context of order 0 or more is an escape: the
  order loop goes on with the next lower order, with the decoder as that read left it, and
  after order 0 it leaves the loop for line 111. Line 111 is reached only after the walk:
  the reads made by then, as the logging decoder records them, are one against the table
  of each context found for the orders \<open>len(history), ..., 0\<close>, in this order, and none of
  them returned a literal byte. The loop of \<^verbatim>\<open>decompress\<close> breaks exactly when the order loop
  has run through in this way and the read of line 111 against the order -1 table then
  yields 256: the reads of a pass that breaks are those of the walk and then, last, the
  read against the order -1 table that returned 256. A run of the loop completes within
  \<open>n\<close> passes exactly when it has gone round fewer than \<open>n\<close> times and then broken in this
  way.
\<close>

theorem eof_only_at_order_minus1:
  "(\<forall>k root ctx d. rootContext (model s) = Some root \<longrightarrow>
       descend (history s) k 0 root = Found ctx \<longrightarrow>
       read E (dec s) (frequencies ctx) = Inr (256, d) \<longrightarrow>
       orderLoop E k s =
         (case k of 0 \<Rightarrow> Continue (s\<lparr>dec := d\<rparr>) | Suc j \<Rightarrow> orderLoop E j (s\<lparr>dec := d\<rparr>))) \<and>
   (\<forall>s1. orderLoop E (length (history s)) s = Continue s1 \<longrightarrow>
      (\<exists>esc. orderLoop (logging E) (length (history s)) (withLog [] s) =
                Continue (withLog esc s1) \<and>
              map fst esc = tablesDown s (length (history s)) \<and> (\<forall>x \<in> set esc. 256 \<le> snd x))) \<and>
   (loopBody E s = Break s' \<longleftrightarrow>
      (\<exists>s1 d. orderLoop E (length (history s)) s = Continue s1 \<and>
         read E (dec s1) (orderMinus1Freqs (model s1)) = Inr (256, d) \<and> s' = s1\<lparr>dec := d\<rparr>)) \<and>
   (loopBody E s = Break s' \<longleftrightarrow>
      (\<exists>esc. decodeSymbol (logging E) (withLog [] s) =
                Inr (256, withLog (esc @ [(orderMinus1Freqs (model s), 256)]) s') \<and>
              map fst esc = tablesDown s (length (history s)) \<and> (\<forall>x \<in> set esc. 256 \<le> snd x))) \<and>
   (decompressLoop E n s = Some (Completed s') \<longleftrightarrow>
      (\<exists>k syms t. k < n \<and> decodedAfter E k s = Some (syms, t) \<and> loopBody E t = Break s'))"
proof -
  have a: "\<forall>k root ctx d. rootContext (model s) = Some root \<longrightarrow>
       descend (history s) k 0 root = Found ctx \<longrightarrow>
       read E (dec s) (frequencies ctx) = Inr (256, d) \<longrightarrow>
       orderLoop E k s =
         (case k of 0 \<Rightarrow> Continue (s\<lparr>dec := d\<rparr>) | Suc j \<Rightarrow> orderLoop E j (s\<lparr>dec := d\<rparr>))"
    by (auto simp: orderBody_def split: nat.splits)
  have w: "\<forall>s1. orderLoop E (length (history s)) s = Continue s1 \<longrightarrow>
      (\<exists>esc. orderLoop (logging E) (length (history s)) (withLog [] s) =
                Continue (withLog esc s1) \<and>
              map fst esc = tablesDown s (length (history s)) \<and> (\<forall>x \<in> set esc. 256 \<le> snd x))"
    using orderLoop_logging_Continue_tables [of E "length (history s)" s _ "[]"] by simp
  have b: "loopBody E s = Break s' \<longleftrightarrow>
      (\<exists>s1 d. orderLoop E (length (history s)) s = Continue s1 \<and>
         read E (dec s1) (orderMinus1Freqs (model s1)) = Inr (256, d) \<and> s' = s1\<lparr>dec := d\<rparr>)"
    unfolding loopBody_Break by (rule decodeSymbol_256)
  have c: "loopBody E s = Break s' \<longleftrightarrow>
      (\<exists>esc. decodeSymbol (logging E) (withLog [] s) =
                Inr (256, withLog (esc @ [(orderMinus1Freqs (model s), 256)]) s') \<and>
              map fst esc = tablesDown s (length (history s)) \<and> (\<forall>x \<in> set esc. 256 \<le> snd x))"
  proof
    assume "loopBody E s = Break s'"
    then have "decodeSymbol E s = Inr (256, s')" by (simp add: loopBody_Break)
    from decodeSymbol_256_reads [OF this, of "[]"]
    show "\<exists>esc. decodeSymbol (logging E) (withLog [] s) =
                Inr (256, withLog (esc @ [(orderMinus1Freqs (model s), 256)]) s') \<and>
              map fst esc = tablesDown s (length (history s)) \<and> (\<forall>x \<in> set esc. 256 \<le> snd x)"
      by simp
  next
    assume "\<exists>esc. decodeSymbol (logging E) (withLog [] s) =
                Inr (256, withLog (esc @ [(orderMinus1Freqs (model s), 256)]) s') \<and>
              map fst esc = tablesDown s (length (history s)) \<and> (\<forall>x \<in> set esc. 256 \<le> snd x)"
    then obtain esc where "decodeSymbol (logging E) (withLog [] s) =
                Inr (256, withLog (esc @ [(orderMinus1Freqs (model s), 256)]) s')" by blast
    from decodeSymbol_logging_Inr [OF this] show "loopBody E s = Break s'"
      by (simp add: loopBody_Break)
  qed
  have d: "decompressLoop E n s = Some (Completed s') \<longleftrightarrow>
      (\<exists>k syms t. k < n \<and> decodedAfter E k s = Some (syms, t) \<and> loopBody E t = Break s')"
    by (rule decompressLoop_Completed_iff)
  from a w b c d show ?thesis by blast
qed

theorem eof_only_at_order_minus1_witness:
  "(case rootContext (model (startOf ababaStream)) of
      Some root \<Rightarrow>
        descend (history (startOf ababaStream)) 0 0 root = Found root \<and>
        map_sum id fst (read (reference True) (dec (startOf ababaStream)) (frequencies root)) = Inr 256 \<and>
        (case orderLoop (reference True) 0 (startOf ababaStream) of
           Continue s1 \<Rightarrow>
             map_sum id fst (read (reference True) (dec s1) (orderMinus1Freqs (model s1))) = Inr 65
         | _ \<Rightarrow> False) \<and>
        (case loopBody (reference True) (startOf ababaStream) of
           Next s1 \<Rightarrow> out s1 = [65]
         | _ \<Rightarrow> False)
    | None \<Rightarrow> False) \<and>
   (case decodedAfter (reference True) 5 (startOf ababaStream) of
      Some (syms, t) \<Rightarrow>
        syms = [65, 66, 65, 66, 65] \<and> history t = [65, 66, 65] \<and> length (tablesDown t 3) = 4 \<and>
        (case loopBody (reference True) t of
           Break s' \<Rightarrow>
             decompressLoop (reference True) 6 (startOf ababaStream) = Some (Completed s') \<and>
             map_sum id (\<lambda>p. map snd (snd (dec (snd p))))
               (decodeSymbol (logging (reference True)) (withLog [] t)) =
               Inr [256, 256, 256, 256, 256] \<and>
             map_sum id (\<lambda>p. map fst (snd (dec (snd p))))
               (decodeSymbol (logging (reference True)) (withLog [] t)) =
               Inr (tablesDown t 3 @ [orderMinus1Freqs (model t)])
         | _ \<Rightarrow> False)
    | None \<Rightarrow> False)"
proof -
  define s0 where "s0 = startOf ababaStream"
  define root where "root = the (rootContext (model (startOf ababaStream)))"
  define d0 where "d0 = snd (projr (read (reference True) (dec (startOf ababaStream)) (frequencies root)))"
  define t where "t = snd (the (decodedAfter (reference True) 5 (startOf ababaStream)))"
  define s' where "s' = (case loopBody (reference True) t of Break s' \<Rightarrow> s')"
  have r: "rootContext (model s0) = Some root"
    unfolding s0_def root_def by code_simp
  have h: "history s0 = []" unfolding s0_def by code_simp
  have f: "descend (history s0) 0 0 root = Found root"
    by (simp add: descend.simps)
  have e: "read (reference True) (dec s0) (frequencies root) = Inr (256, d0)"
    unfolding s0_def d0_def root_def by code_simp
  have e1: "map_sum id fst (read (reference True) d0 (orderMinus1Freqs (model s0))) = Inr 65"
    unfolding s0_def d0_def root_def by code_simp
  have n: "(case loopBody (reference True) s0 of Next s1 \<Rightarrow> out s1 = [65] | _ \<Rightarrow> False)"
    unfolding s0_def by code_simp
  have a: "decodedAfter (reference True) 5 s0 = Some ([65, 66, 65, 66, 65], t)"
    unfolding s0_def t_def by code_simp
  have ht: "history t = [65, 66, 65]" unfolding t_def by code_simp
  have lt: "length (tablesDown t 3) = 4" unfolding t_def by code_simp
  have b: "loopBody (reference True) t = Break s'"
    unfolding s'_def t_def by code_simp
  have l: "map_sum id (\<lambda>p. map snd (snd (dec (snd p))))
               (decodeSymbol (logging (reference True)) (withLog [] t)) =
               Inr [256, 256, 256, 256, 256]"
    unfolding t_def by code_simp
  note t0 = eof_only_at_order_minus1 [where s = s0 and E = "reference True" and s' = s' and n = 6]
  note t5 = eof_only_at_order_minus1 [where s = t and E = "reference True" and s' = s' and n = 0]
  from t0 [THEN conjunct1, rule_format, OF r f e]
  have ol: "orderLoop (reference True) 0 s0 = Continue (s0\<lparr>dec := d0\<rparr>)"
    by simp
  from a b have "\<exists>k syms t. k < (6 :: nat) \<and>
      decodedAfter (reference True) k s0 = Some (syms, t) \<and> loopBody (reference True) t = Break s'"
    by (intro exI [of _ 5] exI [of _ "[65, 66, 65, 66, 65]"] exI [of _ t]) simp
  with t0 [THEN conjunct2, THEN conjunct2, THEN conjunct2, THEN conjunct2]
  have c: "decompressLoop (reference True) 6 s0 = Some (Completed s')"
    by simp
  from t5 [THEN conjunct2, THEN conjunct2, THEN conjunct2, THEN conjunct1] b ht obtain esc where
    "decodeSymbol (logging (reference True)) (withLog [] t) =
       Inr (256, withLog (esc @ [(orderMinus1Freqs (model t), 256)]) s')"
    "map fst esc = tablesDown t 3"
    by (auto simp: numeral_3_eq_3)
  then have g: "map_sum id (\<lambda>p. map fst (snd (dec (snd p))))
               (decodeSymbol (logging (reference True)) (withLog [] t)) =
               Inr (tablesDown t 3 @ [orderMinus1Freqs (model t)])"
    by simp
  have 1: "(case rootContext (model s0) of
      Some root \<Rightarrow>
        descend (history s0) 0 0 root = Found root \<and>
        map_sum id fst (read (reference True) (dec s0) (frequencies root)) = Inr 256 \<and>
        (case orderLoop (reference True) 0 s0 of
           Continue s1 \<Rightarrow>
             map_sum id fst (read (reference True) (dec s1) (orderMinus1Freqs (model s1))) = Inr 65
         | _ \<Rightarrow> False) \<and>
        (case loopBody (reference True) s0 of
           Next s1 \<Rightarrow> out s1 = [65]
         | _ \<Rightarrow> False)
    | None \<Rightarrow> False)"
    using f n ol by (simp add: r e e1)
  have 2: "(case decodedAfter (reference True) 5 s0 of
      Some (syms, t) \<Rightarrow>
        syms = [65, 66, 65, 66, 65] \<and> history t = [65, 66, 65] \<and> length (tablesDown t 3) = 4 \<and>
        (case loopBody (reference True) t of
           Break s' \<Rightarrow>
             decompressLoop (reference True) 6 s0 = Some (Completed s') \<and>
             map_sum id (\<lambda>p. map snd (snd (dec (snd p))))
               (decodeSymbol (logging (reference True)) (withLog [] t)) =
               Inr [256, 256, 256, 256, 256] \<and>
             map_sum id (\<lambda>p. map fst (snd (dec (snd p))))
               (decodeSymbol (logging (reference True)) (withLog [] t)) =
               Inr (tablesDown t 3 @ [orderMinus1Freqs (model t)])
         | _ \<Rightarrow> False)
    | None \<Rightarrow> False)"
    using ht lt c l g by (simp add: a b)
  from 1 2 show ?thesis unfolding s0_def ..
qed

text \<open>
  C5, as amended. Every call of \<^verbatim>\<open>decodeSymbol\<close> that returns a symbol performs at least 1
  and at most \<open>len(history) + 2\<close> reads of the arithmetic decoder: at most one for each of the
  \<open>len(history) + 1\<close> orders from \<open>len(history)\<close> down to 0, and one more against the order -1
  table when all of them escaped. Every read but the last returned an escape (a symbol
  not below 256), so the reads are one more than the escapes taken, and the last read
  returned the symbol of the call. The reads are those the logging decoder records; the
  logged run returns what the plain run returns.
\<close>

theorem reads_per_symbol:
  assumes "decodeSymbol E s = Inr (symbol, s')"
  shows "\<exists>reads. decodeSymbol (logging E) (withLog l s) = Inr (symbol, withLog (l @ reads) s') \<and>
           1 \<le> length reads \<and> length reads \<le> length (history s) + 2 \<and>
           length reads = 1 + length (filter (\<lambda>x. 256 \<le> snd x) (butlast reads)) \<and>
           snd (last reads) = symbol"
proof -
  from decodeSymbol_logging [OF assms, of l] obtain new t where
    n: "decodeSymbol (logging E) (withLog l s) = Inr (symbol, withLog (l @ new @ [(t, symbol)]) s')"
      "length new \<le> Suc (length (history s))" "\<forall>x \<in> set new. 256 \<le> snd x"
    by blast
  from n(3) have "filter (\<lambda>x. 256 \<le> snd x) new = new" by (simp add: filter_id_conv)
  with n(1,2) show ?thesis
    by (intro exI [of _ "new @ [(t, symbol)]"]) simp
qed

theorem reads_per_symbol_witness:
  "(case decodeSymbol (reference True) (startOf emptyStream) of
      Inr (symbol, s') \<Rightarrow> symbol = 256 \<and>
        (case decodeSymbol (logging (reference True)) (withLog [] (startOf emptyStream)) of
           Inr (symbol', sl) \<Rightarrow> symbol' = 256 \<and> sl = withLog (snd (dec sl)) s' \<and>
             length (snd (dec sl)) = 2 \<and> map snd (snd (dec sl)) = [256, 256]
         | Inl e \<Rightarrow> False)
    | Inl e \<Rightarrow> False)"
proof -
  define s1 where "s1 = snd (projr (decodeSymbol (reference True) (startOf emptyStream)))"
  have d: "decodeSymbol (reference True) (startOf emptyStream) = Inr (256, s1)"
    unfolding s1_def by code_simp
  have h: "length (history (startOf emptyStream)) = 0" by code_simp
  from reads_per_symbol [OF d, of "[]"] h obtain reads where
    r: "decodeSymbol (logging (reference True)) (withLog [] (startOf emptyStream)) =
          Inr (256, withLog reads s1)"
      "1 \<le> length reads" "length reads \<le> 2" "snd (last reads) = 256"
    by auto
  have l: "map snd (snd (dec (snd (projr
      (decodeSymbol (logging (reference True)) (withLog [] (startOf emptyStream))))))) = [256, 256]"
    by code_simp
  with r(1) have "map snd reads = [256, 256]" by simp
  then have "length reads = 2" by (metis length_map length_Cons list.size(3) numeral_2_eq_2)
  with \<open>map snd reads = [256, 256]\<close> show ?thesis
    by (simp add: d r(1))
qed

text \<open>
  The claim as stated fails on the compressed form of the empty input: the history is
  empty, the root context exists and the read against its table yields the escape, so the
  call reads twice, more than \<open>len(history) + 1 = 1\<close> times.
\<close>

theorem two_reads_with_empty_history:
  "(case decodeSymbol (logging (reference True)) (withLog [] (startOf emptyStream)) of
      Inr (symbol, sl) \<Rightarrow>
        length (snd (dec sl)) = 2 \<and> length (history (startOf emptyStream)) + 1 = 1 \<and>
        map fst (snd (dec sl)) =
          [frequencies (the (rootContext (model (startOf emptyStream)))),
           orderMinus1Freqs (model (startOf emptyStream))]
    | Inl e \<Rightarrow> False)"
  by code_simp

text \<open>
  C2, as amended. For every model with a root context and every history along which each
  context met has a child slot for the next history symbol (in \<^verbatim>\<open>decompress\<close> the history is
  no longer than \<open>modelOrder\<close>), \<^verbatim>\<open>decodeSymbol\<close> is the walk of the specification: from
  order \<open>len(history)\<close> down to 0 it locates the Context Node of the order-length history
  prefix; where the node does not exist it goes on to the next lower order without a
  read; where it exists it reads once against the node's table, returns a result below
  256 and goes on to the next lower order otherwise; after order 0 it reads against the
  order -1 table. The decoder states, symbols and exceptions of the two walks are equal
  for every decoder, the logging one included.
\<close>

theorem decodeSymbol_is_the_specified_walk:
  assumes "rootContext (model s) = Some root" and "walkable root (history s)"
  shows "decodeSymbol E s = decodeOneSymbol E s"
  using assms by (rule decodeSymbol_decodeOneSymbol)

theorem decodeSymbol_is_the_specified_walk_witness:
  "(case decodedAfter (reference True) 2 (startOf ababaStream) of
      Some (syms, s) \<Rightarrow>
        syms = [65, 66] \<and> history s = [66, 65] \<and>
        (case rootContext (model s) of
           Some root \<Rightarrow>
             walkable root (history s) \<and>
             contextNode root [66, 65] = None \<and> contextNode root [66] = None \<and>
             decodeSymbol (reference True) s = decodeOneSymbol (reference True) s \<and>
             map_sum id fst (decodeSymbol (reference True) s) = Inr 65 \<and>
             map_sum id (\<lambda>p. snd (dec (snd p)))
               (decodeSymbol (logging (reference True)) (withLog [] s)) =
               Inr [(frequencies root, 65)]
         | None \<Rightarrow> False)
    | None \<Rightarrow> False)"
proof -
  define s where "s = snd (the (decodedAfter (reference True) 2 (startOf ababaStream)))"
  define root where "root = the (rootContext (model s))"
  have a: "decodedAfter (reference True) 2 (startOf ababaStream) = Some ([65, 66], s)"
    unfolding s_def by code_simp
  have r: "rootContext (model s) = Some root"
    unfolding root_def s_def by code_simp
  have w: "walkable root (history s)"
    unfolding root_def s_def by code_simp
  have c: "history s = [66, 65] \<and> contextNode root [66, 65] = None \<and> contextNode root [66] = None \<and>
      map_sum id fst (decodeSymbol (reference True) s) = Inr 65 \<and>
      map_sum id (\<lambda>p. snd (dec (snd p)))
               (decodeSymbol (logging (reference True)) (withLog [] s)) =
               Inr [(frequencies root, 65)]"
    unfolding root_def s_def by code_simp
  from decodeSymbol_is_the_specified_walk [OF r w, of "reference True"] w c
  show ?thesis by (simp add: a r)
qed

text \<open>
  The claim as stated fails where the walk meets a context without child slots: with a
  model of order 0 and a history of one symbol, the node of the order-1 prefix does not
  exist, the specified walk goes on to order 0 and resolves a symbol, and line 97 throws.
\<close>

theorem walk_throws_without_child_slots:
  "rootContext (model straySession) = Some (newContext False) \<and>
   history straySession = [65] \<and>
   contextNode (newContext False) [65] = None \<and>
   map_sum id fst (decodeOneSymbol (reference True) straySession) = Inr 256 \<and>
   decodeSymbol (reference True) straySession = Inl (LogicError ''Assertion error'')"
  by code_simp

text \<open>
  C4. In a session of \<^verbatim>\<open>decompress\<close>, built with a model of order 0 or more (the program's
  is 3), after any number of passes of the loop the history is the list of the most recent
  decoded symbols, most recent first, cut to \<open>modelOrder\<close> entries, so its length is at most
  \<open>modelOrder\<close>; none of these symbols is the end-of-stream marker. The history changes
  only at the end of a pass that decoded such a symbol: \<^verbatim>\<open>decodeSymbol\<close> and the break leave
  it alone, and a pass that goes round again prepends its symbol and drops the oldest
  entry when the length would exceed \<open>modelOrder\<close>. (\<open>incrementContexts\<close> is taken not to change
  \<open>modelOrder\<close>, a construction parameter.)
\<close>

theorem history_is_the_recent_symbols:
  assumes "keepsOrder E" and "decodedAfter E n s0 = Some (syms, s)"
    and "sessionAt E order inp = Inr s0" and "0 \<le> modelOrder (model s0)"
  shows "history s = take (nat (modelOrder (model s0))) (rev syms) \<and>
         int (length (history s)) \<le> modelOrder (model s0) \<and>
         256 \<notin> set syms \<and>
         (\<forall>symbol s1. decodeSymbol E s = Inr (symbol, s1) \<longrightarrow> history s1 = history s) \<and>
         (\<forall>s'. loopBody E s = Break s' \<longrightarrow> history s' = history s) \<and>
         (\<forall>s'. loopBody E s = Next s' \<longrightarrow>
            (\<exists>symbol s1. decodeSymbol E s = Inr (symbol, s1) \<and> symbol \<noteq> 256 \<and>
               history s' = take (nat (modelOrder (model s0))) (symbol # history s)))"
proof -
  from assms(3) have e0: "history s0 = []"
    by (auto simp: sessionAt_def split: sum.splits)
  then have "length (history s0) \<le> nat (modelOrder (model s0))" by simp
  from decodedAfter_history [OF assms(1,2) this] e0
  have h: "history s = take (nat (modelOrder (model s0))) (rev syms)"
    and o: "modelOrder (model s) = modelOrder (model s0)"
    and e: "256 \<notin> set syms"
    by simp_all
  from h assms(4) have l: "int (length (history s)) \<le> modelOrder (model s0)" by simp
  have a: "\<forall>symbol s1. decodeSymbol E s = Inr (symbol, s1) \<longrightarrow> history s1 = history s"
    using decodeSymbol_keeps(2) by blast
  have b: "\<forall>s'. loopBody E s = Break s' \<longrightarrow> history s' = history s"
    using decodeSymbol_keeps(2) by (auto simp: loopBody_Break)
  have c: "\<forall>s'. loopBody E s = Next s' \<longrightarrow>
            (\<exists>symbol s1. decodeSymbol E s = Inr (symbol, s1) \<and> symbol \<noteq> 256 \<and>
               history s' = take (nat (modelOrder (model s0))) (symbol # history s))"
  proof (intro allI impI)
    fix s' assume "loopBody E s = Next s'"
    then obtain symbol s1 m where
      d: "decodeSymbol E s = Inr (symbol, s1)" "symbol \<noteq> 256" and
      i: "incrementContexts E (model s) (history s) symbol = Inr m" and
      s': "s' = s1\<lparr>out := out s @ [toChar (charIsSigned E) symbol], model := m,
                history := prepend (modelOrder m) symbol (history s)\<rparr>"
      unfolding loopBody_Next by blast
    from assms(1) i o have "modelOrder m = modelOrder (model s0)"
      by (auto simp: keepsOrder_def)
    moreover from l have "length (history s) \<le> nat (modelOrder (model s0))" by simp
    ultimately have "history s' = take (nat (modelOrder (model s0))) (symbol # history s)"
      using s' by (simp add: prepend_take)
    with d show "\<exists>symbol s1. decodeSymbol E s = Inr (symbol, s1) \<and> symbol \<noteq> 256 \<and>
               history s' = take (nat (modelOrder (model s0))) (symbol # history s)"
      by blast
  qed
  from h l e a b c show ?thesis by blast
qed

theorem history_is_the_recent_symbols_witness:
  "keepsOrder (reference True) \<and>
   initialSession (reference True) ababaStream = Inr (startOf ababaStream) \<and>
   history (startOf ababaStream) = [] \<and> modelOrder (model (startOf ababaStream)) = 3 \<and>
   (case decodedAfter (reference True) 4 (startOf ababaStream) of
      Some (syms, s) \<Rightarrow>
        syms = [65, 66, 65, 66] \<and> history s = [66, 65, 66] \<and>
        (case loopBody (reference True) s of
           Next s' \<Rightarrow> history s' = [65, 66, 65]
         | _ \<Rightarrow> False)
    | None \<Rightarrow> False)"
proof -
  define s where "s = snd (the (decodedAfter (reference True) 4 (startOf ababaStream)))"
  define t where "t = (case loopBody (reference True) s of Next s' \<Rightarrow> s')"
  have k: "keepsOrder (reference True)"
    by (auto simp: keepsOrder_def reference_def PpmModel_incrementContexts_def
             split: option.splits if_splits)
  have a: "decodedAfter (reference True) 4 (startOf ababaStream) = Some ([65, 66, 65, 66], s)"
    unfolding s_def by code_simp
  have i: "initialSession (reference True) ababaStream = Inr (startOf ababaStream)"
    by code_simp
  have i': "sessionAt (reference True) 3 ababaStream = Inr (startOf ababaStream)"
    by code_simp
  have h: "history (startOf ababaStream) = []" by code_simp
  have o: "modelOrder (model (startOf ababaStream)) = 3" by code_simp
  have n: "loopBody (reference True) s = Next t"
    unfolding t_def s_def by code_simp
  have d: "map_sum id fst (decodeSymbol (reference True) s) = Inr 65"
    unfolding s_def by code_simp
  from o have "0 \<le> modelOrder (model (startOf ababaStream))" by simp
  note th = history_is_the_recent_symbols [OF k a i' this]
  from th o have hs: "history s = [66, 65, 66]" by (simp add: numeral_3_eq_3)
  from th n obtain symbol s1 where
    ds: "decodeSymbol (reference True) s = Inr (symbol, s1)" and
    ht: "history t = take (nat (modelOrder (model (startOf ababaStream)))) (symbol # history s)"
    by blast
  from ds d have "symbol = 65" by simp
  with ht hs o have "history t = [65, 66, 65]" by (simp add: numeral_3_eq_3)
  with k i h o hs show ?thesis by (simp add: a n)
qed





text \<open>
  C6, at the order -1 that line 29 allows. \<^verbatim>\<open>decodeSymbol\<close> starts at order
  \<open>len(history) = 0\<close> with \<^verbatim>\<open>model.rootContext.get()\<close> and uses that pointer at line 103 without
  a test: when the model was constructed without a root context, the first pass of
  \<^verbatim>\<open>decompress\<close> ends there, whatever the decoder and the input, and nothing is written.
  The model of order -1 has no context tree, so its \<^verbatim>\<open>rootContext\<close> is null: the round trip
  fails for \<open>modelOrder = -1\<close>.
\<close>

theorem null_root_stops_decompress:
  assumes "newDecoder E 32 inp = Inr d" and "newModel E order 257 256 = Inr m"
    and "rootContext m = None"
  shows "decompressAt E order (Suc n) inp = Some (Aborted NullDereference [])"
  using assms decompressLoop_null_root [of "\<lparr>dec = d, model = m, history = [], out = []\<rparr>" E n]
  by (simp add: decompressAt_def sessionAt_def)

text \<open>
  On the compressed forms of the empty input and of \<open>ABABA\<close>, which the program built with
  order 3 decompresses, the program built with order -1 does not complete.
\<close>

theorem order_minus1_uses_null_root:
  "map_sum id rootContext (PpmModel_new (- 1) 257 256) = Inr None \<and>
   decompressAt (reference True) (- 1) 1 emptyStream = Some (Aborted NullDereference []) \<and>
   decompressAt (reference True) (- 1) 6 ababaStream = Some (Aborted NullDereference []) \<and>
   map_option written (decompressAt (reference True) 3 1 emptyStream) = Some [] \<and>
   map_option written (decompressAt (reference True) 3 6 ababaStream) = Some [65, 66, 65, 66, 65]"
proof -
  define d1 where "d1 = projr (ArithmeticDecoder_new 32 emptyStream)"
  define d2 where "d2 = projr (ArithmeticDecoder_new 32 ababaStream)"
  define m where "m = projr (PpmModel_new (- 1) 257 256)"
  have r: "newDecoder (reference True) = ArithmeticDecoder_new"
    "newModel (reference True) = PpmModel_new"
    by (simp_all add: reference_def)
  have a: "ArithmeticDecoder_new 32 emptyStream = Inr d1"
    unfolding d1_def by code_simp
  have b: "ArithmeticDecoder_new 32 ababaStream = Inr d2"
    unfolding d2_def by code_simp
  have c: "PpmModel_new (- 1) 257 256 = Inr m"
    unfolding m_def by code_simp
  have n: "rootContext m = None"
    unfolding m_def by code_simp
  have 1: "decompressAt (reference True) (- 1) 1 emptyStream = Some (Aborted NullDereference [])"
    using null_root_stops_decompress [of "reference True" emptyStream d1 "- 1" m 0] a c n r
    by simp
  have 2: "decompressAt (reference True) (- 1) 6 ababaStream = Some (Aborted NullDereference [])"
    using null_root_stops_decompress [of "reference True" ababaStream d2 "- 1" m 5] b c n r
    by (simp add: eval_nat_numeral)
  have 3: "map_option written (decompressAt (reference True) 3 1 emptyStream) = Some [] \<and>
   map_option written (decompressAt (reference True) 3 6 ababaStream) = Some [65, 66, 65, 66, 65]"
    by code_simp
  from 1 2 3 c n show ?thesis by simp
qed

end
